theory Spec2Isabelle
  imports Main "HOL-Library.Word" "HOL-Library.Multiset"
begin

section \<open>Sorted-set algebra on \<open>Int64Slice\<close>\<close>

text \<open>
  \<open>type Int64Slice []int64\<close>. Go's \<open>int64\<close> is a 64-bit two's complement integer and
  \<open>b[ib] < pos\<close> compares signed values: \<open><s\<close> on \<open>64 word\<close>. \<open>Union\<close> and
  \<open>Intersect\<close> only compare elements (\<open><\<close> and \<open>==\<close>), so no arithmetic can overflow.
  The index \<open>ib\<close> is a Go \<open>int\<close> that stays within \<open>0..len(b)\<close>; it is a \<open>nat\<close> here.
\<close>

type_synonym int64 = "64 word"
type_synonym Int64Slice = "int64 list"

text \<open>"a and b must be sorted in advance": ascending in the signed order, duplicates allowed.\<close>

definition ascending :: "Int64Slice \<Rightarrow> bool" where
  "ascending a = sorted_wrt (\<lambda>x y. x \<le>s y) a"

text \<open>
  \<open>Union\<close>, inner loop: \<open>for ib < len(b) && b[ib] < pos { out = append(out, b[ib]); ib++ }\<close>.
  The state is \<open>(ib, out)\<close>.
\<close>

function Union_lower :: "Int64Slice \<Rightarrow> int64 \<Rightarrow> nat \<Rightarrow> Int64Slice \<Rightarrow> nat \<times> Int64Slice" where
  "Union_lower b pos ib out =
     (if ib < length b \<and> b ! ib <s pos
      then Union_lower b pos (ib + 1) (out @ [b ! ib])
      else (ib, out))"
  by pat_completeness auto
termination
  by (relation "measure (\<lambda>(b, pos, ib, out). length b - ib)") auto

declare Union_lower.simps [simp del]

text \<open>
  One iteration of \<open>for _, pos := range a\<close>: the inner loop, then
  \<open>if ib < len(b) && b[ib] == pos { ib++ }\<close>, then \<open>out = append(out, pos)\<close>.
\<close>

definition Union_body :: "Int64Slice \<Rightarrow> int64 \<Rightarrow> nat \<times> Int64Slice \<Rightarrow> nat \<times> Int64Slice" where
  "Union_body b pos st =
     (case Union_lower b pos (fst st) (snd st) of
        (ib, out) \<Rightarrow>
          (if ib < length b \<and> b ! ib = pos then ib + 1 else ib, out @ [pos]))"

text \<open>
  \<open>func (a Int64Slice) Union(b Int64Slice) (out Int64Slice)\<close>: \<open>ib := 0\<close>, empty \<open>out\<close>,
  the loop over \<open>a\<close>, and finally \<open>out = append(out, b[ib:]...)\<close>.
\<close>

definition Int64Slice_Union :: "Int64Slice \<Rightarrow> Int64Slice \<Rightarrow> Int64Slice" where
  "Int64Slice_Union a b =
     (case fold (Union_body b) a (0, []) of (ib, out) \<Rightarrow> out @ drop ib b)"

text \<open>\<open>Intersect\<close>, inner loop: \<open>for ib < len(b) && b[ib] < pos { ib++ }\<close>.\<close>

function Intersect_lower :: "Int64Slice \<Rightarrow> int64 \<Rightarrow> nat \<Rightarrow> nat" where
  "Intersect_lower b pos ib =
     (if ib < length b \<and> b ! ib <s pos then Intersect_lower b pos (ib + 1) else ib)"
  by pat_completeness auto
termination
  by (relation "measure (\<lambda>(b, pos, ib). length b - ib)") auto

declare Intersect_lower.simps [simp del]

text \<open>
  One iteration of the loop over \<open>a\<close>: the inner loop, then
  \<open>if ib < len(b) && b[ib] == pos { out = append(out, pos); ib++ }\<close>.
\<close>

definition Intersect_body :: "Int64Slice \<Rightarrow> int64 \<Rightarrow> nat \<times> Int64Slice \<Rightarrow> nat \<times> Int64Slice" where
  "Intersect_body b pos st =
     (let ib = Intersect_lower b pos (fst st) in
      if ib < length b \<and> b ! ib = pos then (ib + 1, snd st @ [pos]) else (ib, snd st))"

definition Int64Slice_Intersect :: "Int64Slice \<Rightarrow> Int64Slice \<Rightarrow> Int64Slice" where
  "Int64Slice_Intersect a b = snd (fold (Intersect_body b) a (0, []))"

subsection \<open>The loops in terms of the unread suffix of \<open>b\<close>\<close>

text \<open>
  Proof device: the same two algorithms as structural recursions on \<open>a\<close> and on
  the part \<open>b[ib:]\<close> of \<open>b\<close> that has not been read yet. The index-based loops above
  are shown equal to them (\<open>Int64Slice_Union_rest\<close>, \<open>Int64Slice_Intersect_rest\<close>).
\<close>

fun union_rest :: "Int64Slice \<Rightarrow> Int64Slice \<Rightarrow> Int64Slice" where
  "union_rest [] bs = bs"
| "union_rest (pos # as) bs =
     (let r = dropWhile (\<lambda>y. y <s pos) bs in
      takeWhile (\<lambda>y. y <s pos) bs @
      pos # union_rest as (if r \<noteq> [] \<and> hd r = pos then tl r else r))"

fun intersect_rest :: "Int64Slice \<Rightarrow> Int64Slice \<Rightarrow> Int64Slice" where
  "intersect_rest [] bs = []"
| "intersect_rest (pos # as) bs =
     (let r = dropWhile (\<lambda>y. y <s pos) bs in
      if r \<noteq> [] \<and> hd r = pos then pos # intersect_rest as (tl r)
      else intersect_rest as r)"

lemma Union_lower_takeWhile:
  "ib \<le> length b \<Longrightarrow>
   Union_lower b pos ib out =
     (ib + length (takeWhile (\<lambda>y. y <s pos) (drop ib b)),
      out @ takeWhile (\<lambda>y. y <s pos) (drop ib b))"
proof (induction b pos ib out rule: Union_lower.induct)
  case (1 b pos ib out)
  show ?case
  proof (cases "ib < length b \<and> b ! ib <s pos")
    case True
    then have d: "drop ib b = b ! ib # drop (Suc ib) b"
      by (simp add: Cons_nth_drop_Suc)
    from True have "Suc ib \<le> length b" by simp
    with 1 True show ?thesis
      by (subst Union_lower.simps) (simp add: d)
  next
    case False
    show ?thesis
    proof (cases "ib < length b")
      case True
      then have d: "drop ib b = b ! ib # drop (Suc ib) b"
        by (simp add: Cons_nth_drop_Suc)
      from False True show ?thesis
        by (subst Union_lower.simps) (simp add: d)
    next
      case False
      with 1 show ?thesis
        by (subst Union_lower.simps) simp
    qed
  qed
qed

lemma Intersect_lower_takeWhile:
  "ib \<le> length b \<Longrightarrow>
   Intersect_lower b pos ib = ib + length (takeWhile (\<lambda>y. y <s pos) (drop ib b))"
proof (induction b pos ib rule: Intersect_lower.induct)
  case (1 b pos ib)
  show ?case
  proof (cases "ib < length b")
    case True
    then have d: "drop ib b = b ! ib # drop (Suc ib) b"
      by (simp add: Cons_nth_drop_Suc)
    from True have "Suc ib \<le> length b" by simp
    with 1 True show ?thesis
      by (subst Intersect_lower.simps) (simp add: d)
  next
    case False
    with 1 show ?thesis
      by (subst Intersect_lower.simps) simp
  qed
qed

lemma drop_takeWhile_length:
  "ib \<le> length b \<Longrightarrow>
   drop (ib + length (takeWhile P (drop ib b))) b = dropWhile P (drop ib b)"
  by (simp add: dropWhile_eq_drop add.commute)

lemma takeWhile_length_le:
  "ib \<le> length b \<Longrightarrow> ib + length (takeWhile P (drop ib b)) \<le> length b"
  using length_takeWhile_le [of P "drop ib b"] by simp

lemma drop_nonempty_hd:
  "(n < length b \<and> b ! n = pos) = (drop n b \<noteq> [] \<and> hd (drop n b) = pos)"
  by (auto simp: hd_drop_conv_nth)

lemma Union_fold_rest:
  "ib \<le> length b \<Longrightarrow>
   (case fold (Union_body b) a (ib, out) of (ib', out') \<Rightarrow> out' @ drop ib' b) =
     out @ union_rest a (drop ib b)"
proof (induction a arbitrary: ib out)
  case Nil
  then show ?case by simp
next
  case (Cons pos as)
  let ?P = "\<lambda>y. y <s pos"
  let ?n = "ib + length (takeWhile ?P (drop ib b))"
  let ?r = "dropWhile ?P (drop ib b)"
  have n: "?n \<le> length b" using Cons.prems by (rule takeWhile_length_le)
  have r: "drop ?n b = ?r" using Cons.prems by (rule drop_takeWhile_length)
  have m: "(?n < length b \<and> b ! ?n = pos) = (?r \<noteq> [] \<and> hd ?r = pos)"
    using drop_nonempty_hd [of ?n b pos] by (simp only: r)
  show ?case
  proof (cases "?r \<noteq> [] \<and> hd ?r = pos")
    case True
    with m have lt: "?n < length b \<and> b ! ?n = pos" by simp
    then have le: "?n + 1 \<le> length b" by simp
    have step: "Union_body b pos (ib, out) = (?n + 1, (out @ takeWhile ?P (drop ib b)) @ [pos])"
      using lt by (simp add: Union_body_def Union_lower_takeWhile [OF Cons.prems])
    have d: "drop (?n + 1) b = tl ?r"
      by (simp add: drop_Suc tl_drop flip: r)
    show ?thesis
      using True by (simp only: fold_simps step Cons.IH [OF le] d union_rest.simps Let_def) simp
  next
    case False
    with m have lt: "\<not> (?n < length b \<and> b ! ?n = pos)" by simp
    have step: "Union_body b pos (ib, out) = (?n, (out @ takeWhile ?P (drop ib b)) @ [pos])"
      using lt by (simp add: Union_body_def Union_lower_takeWhile [OF Cons.prems])
    show ?thesis
      using False by (simp only: fold_simps step Cons.IH [OF n] r union_rest.simps Let_def) simp
  qed
qed

lemma Int64Slice_Union_rest: "Int64Slice_Union a b = union_rest a b"
  using Union_fold_rest [of 0 b a "[]"] by (simp add: Int64Slice_Union_def)

lemma Intersect_fold_rest:
  "ib \<le> length b \<Longrightarrow>
   snd (fold (Intersect_body b) a (ib, out)) = out @ intersect_rest a (drop ib b)"
proof (induction a arbitrary: ib out)
  case Nil
  then show ?case by simp
next
  case (Cons pos as)
  let ?P = "\<lambda>y. y <s pos"
  let ?n = "ib + length (takeWhile ?P (drop ib b))"
  let ?r = "dropWhile ?P (drop ib b)"
  have n: "?n \<le> length b" using Cons.prems by (rule takeWhile_length_le)
  have r: "drop ?n b = ?r" using Cons.prems by (rule drop_takeWhile_length)
  have m: "(?n < length b \<and> b ! ?n = pos) = (?r \<noteq> [] \<and> hd ?r = pos)"
    using drop_nonempty_hd [of ?n b pos] by (simp only: r)
  show ?case
  proof (cases "?r \<noteq> [] \<and> hd ?r = pos")
    case True
    with m have lt: "?n < length b \<and> b ! ?n = pos" by simp
    then have le: "?n + 1 \<le> length b" by simp
    have step: "Intersect_body b pos (ib, out) = (?n + 1, out @ [pos])"
      using lt by (simp add: Intersect_body_def Intersect_lower_takeWhile [OF Cons.prems])
    have d: "drop (?n + 1) b = tl ?r"
      by (simp add: drop_Suc tl_drop flip: r)
    show ?thesis
      using True by (simp only: fold_simps step Cons.IH [OF le] d intersect_rest.simps Let_def) simp
  next
    case False
    with m have lt: "\<not> (?n < length b \<and> b ! ?n = pos)" by simp
    have step: "Intersect_body b pos (ib, out) = (?n, out)"
      using lt by (simp add: Intersect_body_def Intersect_lower_takeWhile [OF Cons.prems] Let_def)
    show ?thesis
      using False by (simp only: fold_simps step Cons.IH [OF n] r intersect_rest.simps Let_def) simp
  qed
qed

lemma Int64Slice_Intersect_rest: "Int64Slice_Intersect a b = intersect_rest a b"
  using Intersect_fold_rest [of 0 b a "[]"] by (simp add: Int64Slice_Intersect_def)

lemma ascending_Cons: "ascending (x # xs) = ((\<forall>y\<in>set xs. x \<le>s y) \<and> ascending xs)"
  by (simp add: ascending_def)

lemma ascending_tl: "ascending xs \<Longrightarrow> ascending (tl xs)"
  by (cases xs) (simp_all add: ascending_def)

lemma ascending_dropWhile: "ascending xs \<Longrightarrow> ascending (dropWhile P xs)"
  by (simp add: ascending_def)

lemma ascending_takeWhile: "ascending xs \<Longrightarrow> ascending (takeWhile P xs)"
  by (simp add: ascending_def)

lemma in_set_nonempty: "y \<in> set xs \<Longrightarrow> xs \<noteq> []"
  by auto

lemma ascending_hd_le: "ascending xs \<Longrightarrow> y \<in> set xs \<Longrightarrow> hd xs \<le>s y"
  by (cases xs) (auto simp: ascending_def)

lemma dropWhile_lower_bound:
  assumes "ascending bs" and "y \<in> set (dropWhile (\<lambda>y. y <s pos) bs)"
  shows "pos \<le>s y"
proof -
  let ?r = "dropWhile (\<lambda>y. y <s pos) bs"
  from assms(2) have ne: "?r \<noteq> []" by (rule in_set_nonempty)
  then have h: "\<not> hd ?r <s pos" by (rule hd_dropWhile)
  from assms(1) have "ascending ?r" by (rule ascending_dropWhile)
  then have "hd ?r \<le>s y" using assms(2) by (rule ascending_hd_le)
  with h show ?thesis by (simp add: word_sle_eq word_sless_alt)
qed

lemma dropWhile_strict_bound:
  assumes "ascending bs" and "y \<in> set (dropWhile (\<lambda>y. y <s pos) bs)"
    and "hd (dropWhile (\<lambda>y. y <s pos) bs) \<noteq> pos"
  shows "pos <s y"
proof -
  let ?r = "dropWhile (\<lambda>y. y <s pos) bs"
  from assms(2) have ne: "?r \<noteq> []" by (rule in_set_nonempty)
  then have h: "\<not> hd ?r <s pos" by (rule hd_dropWhile)
  from assms(1) have "ascending ?r" by (rule ascending_dropWhile)
  then have "hd ?r \<le>s y" using assms(2) by (rule ascending_hd_le)
  moreover from assms(3) have "sint (hd ?r) \<noteq> sint pos"
    by (simp add: word_eq_iff_signed [where ?'a = int])
  ultimately show ?thesis using h by (simp add: word_sle_eq word_sless_alt)
qed

lemma union_rest_match:
  "dropWhile (\<lambda>y. y <s pos) bs \<noteq> [] \<Longrightarrow> hd (dropWhile (\<lambda>y. y <s pos) bs) = pos \<Longrightarrow>
   union_rest (pos # as) bs =
     takeWhile (\<lambda>y. y <s pos) bs @ pos # union_rest as (tl (dropWhile (\<lambda>y. y <s pos) bs))"
  by (simp add: Let_def)

lemma union_rest_nomatch:
  "dropWhile (\<lambda>y. y <s pos) bs = [] \<or> hd (dropWhile (\<lambda>y. y <s pos) bs) \<noteq> pos \<Longrightarrow>
   union_rest (pos # as) bs =
     takeWhile (\<lambda>y. y <s pos) bs @ pos # union_rest as (dropWhile (\<lambda>y. y <s pos) bs)"
  by (auto simp: Let_def)

lemma intersect_rest_match:
  "dropWhile (\<lambda>y. y <s pos) bs \<noteq> [] \<Longrightarrow> hd (dropWhile (\<lambda>y. y <s pos) bs) = pos \<Longrightarrow>
   intersect_rest (pos # as) bs = pos # intersect_rest as (tl (dropWhile (\<lambda>y. y <s pos) bs))"
  by (simp add: Let_def)

lemma intersect_rest_nomatch:
  "dropWhile (\<lambda>y. y <s pos) bs = [] \<or> hd (dropWhile (\<lambda>y. y <s pos) bs) \<noteq> pos \<Longrightarrow>
   intersect_rest (pos # as) bs = intersect_rest as (dropWhile (\<lambda>y. y <s pos) bs)"
  by (auto simp: Let_def)

lemma set_split_While: "set bs = set (takeWhile P bs) \<union> set (dropWhile P bs)"
proof -
  have "set bs = set (takeWhile P bs @ dropWhile P bs)" by simp
  then show ?thesis by (simp only: set_append)
qed

lemma set_hd_tl: "xs \<noteq> [] \<Longrightarrow> set xs = insert (hd xs) (set (tl xs))"
  by (cases xs) simp_all

lemma set_union_rest: "set (union_rest a b) = set a \<union> set b"
proof (induction a arbitrary: b)
  case Nil
  then show ?case by simp
next
  case (Cons pos as)
  let ?P = "\<lambda>y. y <s pos"
  have s: "set b = set (takeWhile ?P b) \<union> set (dropWhile ?P b)"
    by (rule set_split_While)
  show ?case
  proof (cases "dropWhile ?P b \<noteq> [] \<and> hd (dropWhile ?P b) = pos")
    case True
    then have "set (dropWhile ?P b) = insert pos (set (tl (dropWhile ?P b)))"
      using set_hd_tl [of "dropWhile ?P b"] by simp
    with s have "set b = set (takeWhile ?P b) \<union> insert pos (set (tl (dropWhile ?P b)))"
      by simp
    moreover from True have "union_rest (pos # as) b =
        takeWhile ?P b @ pos # union_rest as (tl (dropWhile ?P b))"
      by (simp add: union_rest_match)
    ultimately show ?thesis
      by (simp only: set_append list.set Cons.IH) blast
  next
    case False
    then have "union_rest (pos # as) b = takeWhile ?P b @ pos # union_rest as (dropWhile ?P b)"
      by (intro union_rest_nomatch) blast
    with s show ?thesis
      by (simp only: set_append list.set Cons.IH) blast
  qed
qed

lemma set_intersect_rest: "set (intersect_rest a b) \<subseteq> set a"
proof (induction a arbitrary: b)
  case Nil
  then show ?case by simp
next
  case (Cons pos as)
  from Cons.IH [of "tl (dropWhile (\<lambda>y. y <s pos) b)"] Cons.IH [of "dropWhile (\<lambda>y. y <s pos) b"]
  show ?case by (auto simp: Let_def)
qed

declare union_rest.simps(2) [simp del] intersect_rest.simps(2) [simp del]

lemma count_split_While:
  "count_list bs v = count_list (takeWhile P bs) v + count_list (dropWhile P bs) v"
proof -
  have "count_list bs v = count_list (takeWhile P bs @ dropWhile P bs) v" by simp
  then show ?thesis by (simp only: count_list_append)
qed

lemma count_hd_tl:
  "xs \<noteq> [] \<Longrightarrow> count_list xs v = (if hd xs = v then 1 else 0) + count_list (tl xs) v"
  by (cases xs) simp_all

lemma slt_irrefl: "\<not> (x::int64) <s x"
  by (simp add: word_sless_alt)

lemma sle_not_slt: "(x::int64) \<le>s y \<Longrightarrow> \<not> y <s x"
  by (simp add: word_sle_eq word_sless_alt)

lemma slt_cases: "(v::int64) <s pos \<or> v = pos \<or> pos <s v"
  by (auto simp: word_sless_alt word_eq_iff_signed [where ?'a = int])

lemma count_below:
  "\<forall>y\<in>set xs. pos \<le>s y \<Longrightarrow> v <s pos \<Longrightarrow> count_list xs v = 0"
  by (rule count_notin) (auto dest: sle_not_slt)

lemma count_takeWhile_above:
  "\<not> v <s pos \<Longrightarrow> count_list (takeWhile (\<lambda>y. y <s pos) bs) v = 0"
  by (rule count_notin) (auto dest: set_takeWhileD)

lemma count_union_rest:
  "ascending a \<Longrightarrow> ascending b \<Longrightarrow>
   count_list (union_rest a b) v = max (count_list a v) (count_list b v)"
proof (induction a arbitrary: b)
  case Nil
  then show ?case by simp
next
  case (Cons pos as)
  let ?P = "\<lambda>y. y <s pos"
  let ?lo = "takeWhile ?P b"
  let ?r = "dropWhile ?P b"
  from Cons.prems(1) have as: "ascending as" and ge: "\<forall>y\<in>set as. pos \<le>s y"
    by (simp_all add: ascending_Cons)
  from Cons.prems(2) have r: "ascending ?r" by (rule ascending_dropWhile)
  have rge: "\<forall>y\<in>set ?r. pos \<le>s y"
    using dropWhile_lower_bound [OF Cons.prems(2)] by blast
  have cb: "count_list b v = count_list ?lo v + count_list ?r v"
    by (rule count_split_While)
  show ?case
  proof (cases "?r \<noteq> [] \<and> hd ?r = pos")
    case True
    then have eq: "union_rest (pos # as) b = ?lo @ pos # union_rest as (tl ?r)"
      by (simp add: union_rest_match)
    from r have "ascending (tl ?r)" by (rule ascending_tl)
    with as have ih: "count_list (union_rest as (tl ?r)) v =
        max (count_list as v) (count_list (tl ?r) v)"
      by (rule Cons.IH)
    from True have cr: "count_list ?r v = (if pos = v then 1 else 0) + count_list (tl ?r) v"
      using count_hd_tl [of ?r v] by simp
    consider "v <s pos" | "v = pos" | "pos <s v" using slt_cases by blast
    then show ?thesis
    proof cases
      case 1
      then have "count_list as v = 0" "count_list ?r v = 0" "v \<noteq> pos"
        using ge rge by (auto simp: count_below slt_irrefl)
      with cr show ?thesis by (simp add: eq ih cb)
    next
      case 2
      then have "count_list ?lo v = 0" by (simp add: count_takeWhile_above slt_irrefl)
      with 2 cr ih cb show ?thesis by (simp add: eq)
    next
      case 3
      then have "\<not> v <s pos" "v \<noteq> pos"
        by (auto simp: word_sless_alt)
      then have "count_list ?lo v = 0" "pos \<noteq> v" by (simp_all add: count_takeWhile_above)
      with cr show ?thesis by (simp add: eq ih cb)
    qed
  next
    case False
    then have eq: "union_rest (pos # as) b = ?lo @ pos # union_rest as ?r"
      by (intro union_rest_nomatch) blast
    from as r have ih: "count_list (union_rest as ?r) v =
        max (count_list as v) (count_list ?r v)"
      by (rule Cons.IH)
    have rgt: "\<forall>y\<in>set ?r. pos <s y"
    proof
      fix y assume y: "y \<in> set ?r"
      then have "?r \<noteq> []" by (rule in_set_nonempty)
      with False have "hd ?r \<noteq> pos" by blast
      with Cons.prems(2) y show "pos <s y" by (rule dropWhile_strict_bound)
    qed
    consider "v <s pos" | "v = pos" | "pos <s v" using slt_cases by blast
    then show ?thesis
    proof cases
      case 1
      then have "count_list as v = 0" "count_list ?r v = 0" "v \<noteq> pos"
        using ge rge by (auto simp: count_below slt_irrefl)
      then show ?thesis by (simp add: eq ih cb)
    next
      case 2
      have "pos \<notin> set ?r" using rgt by (auto simp: slt_irrefl)
      then have "count_list ?r pos = 0" by (rule count_notin)
      moreover have "count_list ?lo pos = 0" by (simp add: count_takeWhile_above slt_irrefl)
      ultimately show ?thesis using 2 ih cb by (simp add: eq)
    next
      case 3
      then have "\<not> v <s pos" "v \<noteq> pos"
        by (auto simp: word_sless_alt)
      then have "count_list ?lo v = 0" "pos \<noteq> v" by (simp_all add: count_takeWhile_above)
      then show ?thesis by (simp add: eq ih cb)
    qed
  qed
qed

lemma count_intersect_rest:
  "ascending a \<Longrightarrow> ascending b \<Longrightarrow>
   count_list (intersect_rest a b) v = min (count_list a v) (count_list b v)"
proof (induction a arbitrary: b)
  case Nil
  then show ?case by simp
next
  case (Cons pos as)
  let ?P = "\<lambda>y. y <s pos"
  let ?lo = "takeWhile ?P b"
  let ?r = "dropWhile ?P b"
  from Cons.prems(1) have as: "ascending as" and ge: "\<forall>y\<in>set as. pos \<le>s y"
    by (simp_all add: ascending_Cons)
  from Cons.prems(2) have r: "ascending ?r" by (rule ascending_dropWhile)
  have rge: "\<forall>y\<in>set ?r. pos \<le>s y"
    using dropWhile_lower_bound [OF Cons.prems(2)] by blast
  have cb: "count_list b v = count_list ?lo v + count_list ?r v"
    by (rule count_split_While)
  show ?case
  proof (cases "?r \<noteq> [] \<and> hd ?r = pos")
    case True
    then have eq: "intersect_rest (pos # as) b = pos # intersect_rest as (tl ?r)"
      by (simp add: intersect_rest_match)
    from r have "ascending (tl ?r)" by (rule ascending_tl)
    with as have ih: "count_list (intersect_rest as (tl ?r)) v =
        min (count_list as v) (count_list (tl ?r) v)"
      by (rule Cons.IH)
    from True have cr: "count_list ?r v = (if pos = v then 1 else 0) + count_list (tl ?r) v"
      using count_hd_tl [of ?r v] by simp
    consider "v <s pos" | "v = pos" | "pos <s v" using slt_cases by blast
    then show ?thesis
    proof cases
      case 1
      then have "count_list as v = 0" "count_list ?r v = 0" "v \<noteq> pos"
        using ge rge by (auto simp: count_below slt_irrefl)
      with cr show ?thesis by (simp add: eq ih cb)
    next
      case 2
      then have "count_list ?lo v = 0" by (simp add: count_takeWhile_above slt_irrefl)
      with 2 cr ih cb show ?thesis by (simp add: eq)
    next
      case 3
      then have "\<not> v <s pos" "v \<noteq> pos"
        by (auto simp: word_sless_alt)
      then have "count_list ?lo v = 0" "pos \<noteq> v" by (simp_all add: count_takeWhile_above)
      with cr show ?thesis by (simp add: eq ih cb)
    qed
  next
    case False
    then have eq: "intersect_rest (pos # as) b = intersect_rest as ?r"
      by (intro intersect_rest_nomatch) blast
    from as r have ih: "count_list (intersect_rest as ?r) v =
        min (count_list as v) (count_list ?r v)"
      by (rule Cons.IH)
    have rgt: "\<forall>y\<in>set ?r. pos <s y"
    proof
      fix y assume y: "y \<in> set ?r"
      then have "?r \<noteq> []" by (rule in_set_nonempty)
      with False have "hd ?r \<noteq> pos" by blast
      with Cons.prems(2) y show "pos <s y" by (rule dropWhile_strict_bound)
    qed
    consider "v <s pos" | "v = pos" | "pos <s v" using slt_cases by blast
    then show ?thesis
    proof cases
      case 1
      then have "count_list as v = 0" "count_list ?r v = 0" "v \<noteq> pos"
        using ge rge by (auto simp: count_below slt_irrefl)
      then show ?thesis by (simp add: eq ih cb)
    next
      case 2
      have "pos \<notin> set ?r" using rgt by (auto simp: slt_irrefl)
      then have "count_list ?r pos = 0" by (rule count_notin)
      moreover have "count_list ?lo pos = 0" by (simp add: count_takeWhile_above slt_irrefl)
      ultimately show ?thesis using 2 ih cb by (simp add: eq)
    next
      case 3
      then have "\<not> v <s pos" "v \<noteq> pos"
        by (auto simp: word_sless_alt)
      then have "count_list ?lo v = 0" "pos \<noteq> v" by (simp_all add: count_takeWhile_above)
      then show ?thesis by (simp add: eq ih cb)
    qed
  qed
qed

lemma sle_trans: "(x::int64) \<le>s y \<Longrightarrow> y \<le>s z \<Longrightarrow> x \<le>s z"
  by (simp add: word_sle_eq)

lemma slt_imp_sle: "(x::int64) <s y \<Longrightarrow> x \<le>s y"
  by (simp add: word_sle_eq word_sless_alt)

lemma sle_antisym: "(x::int64) \<le>s y \<Longrightarrow> y \<le>s x \<Longrightarrow> x = y"
  by (simp add: word_sle_eq word_eq_iff_signed [where ?'a = int])

lemma ascending_append:
  "ascending (xs @ ys) = (ascending xs \<and> ascending ys \<and> (\<forall>x\<in>set xs. \<forall>y\<in>set ys. x \<le>s y))"
  by (simp add: ascending_def sorted_wrt_append)

lemma ascending_union_rest:
  "ascending a \<Longrightarrow> ascending b \<Longrightarrow> ascending (union_rest a b)"
proof (induction a arbitrary: b)
  case Nil
  then show ?case by simp
next
  case (Cons pos as)
  let ?P = "\<lambda>y. y <s pos"
  define lo where "lo = takeWhile ?P b"
  define r where "r = dropWhile ?P b"
  define r' where "r' = (if r \<noteq> [] \<and> hd r = pos then tl r else r)"
  from Cons.prems(1) have as: "ascending as" and ge: "\<forall>y\<in>set as. pos \<le>s y"
    by (simp_all add: ascending_Cons)
  from Cons.prems(2) have r: "ascending r" unfolding r_def by (rule ascending_dropWhile)
  have rge: "\<forall>y\<in>set r. pos \<le>s y"
    unfolding r_def using dropWhile_lower_bound [OF Cons.prems(2)] by blast
  have r': "ascending r'" using r by (simp add: r'_def ascending_tl)
  have sub: "set r' \<subseteq> set r"
    unfolding r'_def by (cases r) auto
  have eq: "union_rest (pos # as) b = lo @ pos # union_rest as r'"
    by (simp only: union_rest.simps Let_def lo_def r_def r'_def)
  have u: "ascending (union_rest as r')" using as r' by (rule Cons.IH)
  have uge: "\<forall>y\<in>set (union_rest as r'). pos \<le>s y"
    using ge rge sub by (auto simp: set_union_rest)
  have lo: "ascending lo" unfolding lo_def using Cons.prems(2) by (rule ascending_takeWhile)
  have lolt: "\<forall>x\<in>set lo. x \<le>s pos"
    unfolding lo_def by (auto dest: set_takeWhileD slt_imp_sle)
  have "ascending (pos # union_rest as r')" using u uge by (simp add: ascending_Cons)
  moreover have "\<forall>x\<in>set lo. \<forall>y\<in>set (pos # union_rest as r'). x \<le>s y"
  proof (intro ballI)
    fix x y assume x: "x \<in> set lo" and y: "y \<in> set (pos # union_rest as r')"
    from x lolt have "x \<le>s pos" by blast
    moreover from y uge have "pos \<le>s y" by (auto simp: word_sle_eq)
    ultimately show "x \<le>s y" by (rule sle_trans)
  qed
  ultimately show ?case using lo by (simp only: eq ascending_append)
qed

lemma ascending_intersect_rest:
  "ascending a \<Longrightarrow> ascending (intersect_rest a b)"
proof (induction a arbitrary: b)
  case Nil
  then show ?case by (simp add: ascending_def)
next
  case (Cons pos as)
  from Cons.prems have as: "ascending as" and ge: "\<forall>y\<in>set as. pos \<le>s y"
    by (simp_all add: ascending_Cons)
  have "\<forall>y\<in>set (intersect_rest as bs). pos \<le>s y" for bs
    using ge set_intersect_rest [of as bs] by blast
  then show ?case
    using Cons.IH [OF as] by (simp add: intersect_rest.simps Let_def ascending_Cons)
qed

lemma length_union_intersect_rest:
  "length (union_rest a b) + length (intersect_rest a b) = length a + length b"
proof (induction a arbitrary: b)
  case Nil
  then show ?case by simp
next
  case (Cons pos as)
  let ?P = "\<lambda>y. y <s pos"
  let ?r = "dropWhile ?P b"
  have lb: "length b = length (takeWhile ?P b) + length ?r"
  proof -
    have "length b = length (takeWhile ?P b @ ?r)" by simp
    then show ?thesis by (simp only: length_append)
  qed
  show ?case
  proof (cases "?r \<noteq> [] \<and> hd ?r = pos")
    case True
    then have ne: "?r \<noteq> []" and hd: "hd ?r = pos" by blast+
    from ne have p: "0 < length ?r" by (rule length_greater_0_conv [THEN iffD2])
    have ih: "length (union_rest as (tl ?r)) + length (intersect_rest as (tl ?r)) =
        length as + (length ?r - 1)"
      using Cons.IH [of "tl ?r"] by (simp only: length_tl)
    have "length (union_rest (pos # as) b) =
        length (takeWhile ?P b) + Suc (length (union_rest as (tl ?r)))"
      by (simp only: union_rest_match [OF ne hd] length_append length_Cons)
    moreover have "length (intersect_rest (pos # as) b) =
        Suc (length (intersect_rest as (tl ?r)))"
      by (simp only: intersect_rest_match [OF ne hd] length_Cons)
    moreover have "length (pos # as) = Suc (length as)" by simp
    ultimately show ?thesis using p ih lb by arith
  next
    case False
    then have c: "?r = [] \<or> hd ?r \<noteq> pos" by blast
    then have "union_rest (pos # as) b = takeWhile ?P b @ pos # union_rest as ?r"
      by (rule union_rest_nomatch)
    moreover from c have "intersect_rest (pos # as) b = intersect_rest as ?r"
      by (rule intersect_rest_nomatch)
    moreover note lb Cons.IH [of ?r]
    ultimately show ?thesis by simp
  qed
qed

lemma union_rest_self: "union_rest a a = a"
proof (induction a)
  case Nil
  then show ?case by simp
next
  case (Cons pos as)
  have "dropWhile (\<lambda>y. y <s pos) (pos # as) = pos # as"
    and "takeWhile (\<lambda>y. y <s pos) (pos # as) = []"
    by (simp_all add: slt_irrefl)
  with Cons.IH show ?case by (simp add: union_rest.simps Let_def)
qed

lemma intersect_rest_self: "intersect_rest a a = a"
proof (induction a)
  case Nil
  then show ?case by simp
next
  case (Cons pos as)
  have "dropWhile (\<lambda>y. y <s pos) (pos # as) = pos # as"
    by (simp add: slt_irrefl)
  with Cons.IH show ?case by (simp add: intersect_rest.simps Let_def)
qed

lemma count_all_zero:
  assumes "\<forall>v. count_list ys v = 0"
  shows "ys = []"
proof (cases ys)
  case Nil
  then show ?thesis .
next
  case (Cons y ys')
  from assms have "count_list ys y = 0" by blast
  with Cons show ?thesis by simp
qed

lemma ascending_count_unique:
  "ascending xs \<Longrightarrow> ascending ys \<Longrightarrow> \<forall>v. count_list xs v = count_list ys v \<Longrightarrow> xs = ys"
proof (induction xs arbitrary: ys)
  case Nil
  then have "\<forall>v. count_list ys v = 0" by simp
  then show ?case using count_all_zero by blast
next
  case (Cons x xs)
  from Cons.prems(3) have "count_list ys x = count_list (x # xs) x" by (simp only:)
  then have "count_list ys x \<noteq> 0" by simp
  then have xin: "x \<in> set ys" by (simp add: count_list_0_iff)
  then obtain y ys' where ys: "ys = y # ys'" by (cases ys) auto
  from Cons.prems(3) have "count_list (x # xs) y = count_list (y # ys') y"
    unfolding ys by blast
  then have "count_list (x # xs) y \<noteq> 0" by simp
  then have yin: "y \<in> set (x # xs)" by (simp only: count_list_0_iff) simp
  have "y \<le>s x" using Cons.prems(2) xin ys by (auto simp: ascending_Cons word_sle_eq)
  moreover have "x \<le>s y" using Cons.prems(1) yin by (auto simp: ascending_Cons word_sle_eq)
  ultimately have xy: "x = y" by (simp add: sle_antisym)
  have "\<forall>v. count_list xs v = count_list ys' v"
  proof
    fix v
    from Cons.prems(3) have "count_list (x # xs) v = count_list (y # ys') v"
      unfolding ys by blast
    then show "count_list xs v = count_list ys' v" by (simp add: xy split: if_splits)
  qed
  moreover from Cons.prems have "ascending xs" "ascending ys'"
    by (simp_all add: ascending_Cons ys)
  ultimately have "xs = ys'" by (intro Cons.IH)
  with xy ys show ?case by simp
qed

text \<open>
  \<open>b[ib:]\<close> panics when \<open>ib\<close> exceeds \<open>len(b)\<close>. It never does: \<open>drop\<close> is applied
  within the slice.
\<close>

lemma Union_body_index:
  assumes "ib \<le> length b"
  shows "fst (Union_body b pos (ib, out)) \<le> length b"
proof -
  have "ib + length (takeWhile (\<lambda>y. y <s pos) (drop ib b)) \<le> length b"
    using assms by (rule takeWhile_length_le)
  then show ?thesis
    by (simp add: Union_body_def Union_lower_takeWhile [OF assms])
qed

lemma Union_fold_index:
  "ib \<le> length b \<Longrightarrow> fst (fold (Union_body b) a (ib, out)) \<le> length b"
proof (induction a arbitrary: ib out)
  case Nil
  then show ?case by simp
next
  case (Cons pos as)
  obtain ib' out' where step: "Union_body b pos (ib, out) = (ib', out')"
    by (cases "Union_body b pos (ib, out)")
  with Union_body_index [OF Cons.prems, of pos out] have "ib' \<le> length b" by simp
  then have "fst (fold (Union_body b) as (ib', out')) \<le> length b" by (rule Cons.IH)
  with step show ?case by simp
qed

lemma Union_index_in_range: "fst (fold (Union_body b) a (0, [])) \<le> length b"
  by (rule Union_fold_index) simp

subsection \<open>Properties of \<open>Union\<close> and \<open>Intersect\<close>\<close>

lemma ascending_example1: "ascending [1, 1, 3]"
  by (simp add: ascending_def word_sle_eq)

lemma ascending_example2: "ascending [1, 3, 3, 4]"
  by (simp add: ascending_def word_sle_eq)

lemma ascending_Union: "ascending a \<Longrightarrow> ascending b \<Longrightarrow> ascending (Int64Slice_Union a b)"
  by (simp add: Int64Slice_Union_rest ascending_union_rest)

lemma ascending_Intersect: "ascending a \<Longrightarrow> ascending (Int64Slice_Intersect a b)"
  by (simp add: Int64Slice_Intersect_rest ascending_intersect_rest)

lemma count_Union:
  "ascending a \<Longrightarrow> ascending b \<Longrightarrow>
   count_list (Int64Slice_Union a b) v = max (count_list a v) (count_list b v)"
  by (simp add: Int64Slice_Union_rest count_union_rest)

lemma count_Intersect:
  "ascending a \<Longrightarrow> ascending b \<Longrightarrow>
   count_list (Int64Slice_Intersect a b) v = min (count_list a v) (count_list b v)"
  by (simp add: Int64Slice_Intersect_rest count_intersect_rest)

lemma mset_Union:
  assumes "ascending a" and "ascending b"
  shows "mset (Int64Slice_Union a b) = mset a + (mset b - mset a)"
proof (rule multiset_eqI)
  fix v
  show "count (mset (Int64Slice_Union a b)) v = count (mset a + (mset b - mset a)) v"
    using count_Union [OF assms, of v] by (simp add: count_mset)
qed

lemma mset_Intersect_subset:
  assumes "ascending a" and "ascending b"
  shows "mset (Int64Slice_Intersect a b) \<subseteq># mset (Int64Slice_Union a b)"
proof (rule mset_subset_eqI)
  fix v
  show "count (mset (Int64Slice_Intersect a b)) v \<le> count (mset (Int64Slice_Union a b)) v"
    using count_Union [OF assms, of v] count_Intersect [OF assms, of v]
    by (simp add: count_mset)
qed

text \<open>
  Claim C3. For ascending \<open>a\<close> and \<open>b\<close>, \<open>Union(a, b)\<close> is ascending and contains every
  element of \<open>a\<close> and every element of \<open>b\<close> with its multiplicity (duplicates inside one
  input are kept), and an element of \<open>b\<close> that meets an equal element of \<open>a\<close> is emitted
  once: the result is \<open>a\<close> together with the occurrences of \<open>b\<close> that \<open>a\<close> does not
  already have.
\<close>

theorem Union_ascending_collapsed:
  assumes "ascending a" and "ascending b"
  shows "ascending (Int64Slice_Union a b) \<and>
         mset a \<subseteq># mset (Int64Slice_Union a b) \<and>
         mset b \<subseteq># mset (Int64Slice_Union a b) \<and>
         mset (Int64Slice_Union a b) = mset a + (mset b - mset a)"
proof -
  have m: "mset (Int64Slice_Union a b) = mset a + (mset b - mset a)"
    using assms by (rule mset_Union)
  have "mset b \<subseteq># mset a + (mset b - mset a)"
    by (rule mset_subset_eqI) simp
  with m assms show ?thesis by (simp add: ascending_Union)
qed

text \<open>
  Claim C3 at \<open>a = [1, 1, 3]\<close>, \<open>b = [1, 3, 3, 4]\<close>: the union is \<open>[1, 1, 3, 3, 4]\<close>.
\<close>

theorem Union_ascending_collapsed_witness:
  "ascending [1, 1, 3] \<and> ascending [1, 3, 3, 4] \<and>
   Int64Slice_Union [1, 1, 3] [1, 3, 3, 4] = [1, 1, 3, 3, 4] \<and>
   ascending (Int64Slice_Union [1, 1, 3] [1, 3, 3, 4]) \<and>
   mset [1, 1, 3] \<subseteq># mset (Int64Slice_Union [1, 1, 3] [1, 3, 3, 4]) \<and>
   mset [1, 3, 3, 4] \<subseteq># mset (Int64Slice_Union [1, 1, 3] [1, 3, 3, 4]) \<and>
   mset (Int64Slice_Union [1, 1, 3] [1, 3, 3, 4]) =
     mset [1, 1, 3] + (mset [1, 3, 3, 4] - mset [1, 1, 3])"
proof -
  have "Int64Slice_Union [1, 1, 3] [1, 3, 3, 4] = [1, 1, 3, 3, 4]" by code_simp
  with ascending_example1 ascending_example2
    Union_ascending_collapsed [OF ascending_example1 ascending_example2]
  show ?thesis by (intro conjI) simp_all
qed

text \<open>
  Claim C4. For ascending \<open>a\<close> and \<open>b\<close>, \<open>|Union(a, b)| + |Intersect(a, b)| = |a| + |b|\<close>,
  and every element of \<open>Intersect(a, b)\<close> appears in \<open>Union(a, b)\<close> (as a set, and also
  counting occurrences).
\<close>

theorem Union_Intersect_length:
  assumes "ascending a" and "ascending b"
  shows "length (Int64Slice_Union a b) + length (Int64Slice_Intersect a b) =
           length a + length b \<and>
         set (Int64Slice_Intersect a b) \<subseteq> set (Int64Slice_Union a b) \<and>
         mset (Int64Slice_Intersect a b) \<subseteq># mset (Int64Slice_Union a b)"
proof -
  have "set (Int64Slice_Intersect a b) \<subseteq> set a"
    by (simp add: Int64Slice_Intersect_rest set_intersect_rest)
  then have "set (Int64Slice_Intersect a b) \<subseteq> set (Int64Slice_Union a b)"
    by (auto simp: Int64Slice_Union_rest set_union_rest)
  with mset_Intersect_subset [OF assms] show ?thesis
    by (simp add: Int64Slice_Union_rest Int64Slice_Intersect_rest length_union_intersect_rest)
qed

text \<open>
  Claim C4 at \<open>a = [1, 1, 3]\<close>, \<open>b = [1, 3, 3, 4]\<close>.
\<close>

theorem Union_Intersect_length_witness:
  "ascending [1, 1, 3] \<and> ascending [1, 3, 3, 4] \<and>
   length (Int64Slice_Union [1, 1, 3] [1, 3, 3, 4]) +
     length (Int64Slice_Intersect [1, 1, 3] [1, 3, 3, 4]) = 7 \<and>
   set (Int64Slice_Intersect [1, 1, 3] [1, 3, 3, 4]) \<subseteq>
     set (Int64Slice_Union [1, 1, 3] [1, 3, 3, 4])"
  using Union_Intersect_length [OF ascending_example1 ascending_example2]
    ascending_example1 ascending_example2
  by simp

text \<open>
  Claim C5. \<open>Union([1,3,5], [2,3,4]) = [1,2,3,4,5]\<close> and \<open>Intersect([1,3,5], [2,3,4]) = [3]\<close>.
\<close>

theorem Union_Intersect_example:
  "Int64Slice_Union [1, 3, 5] [2, 3, 4] = [1, 2, 3, 4, 5] \<and>
   Int64Slice_Intersect [1, 3, 5] [2, 3, 4] = [3]"
  by code_simp

text \<open>
  Claim C6. For ascending \<open>a\<close>, \<open>Union(a, a) = a\<close> and \<open>Intersect(a, a) = a\<close>.
\<close>

theorem Union_Intersect_idem:
  assumes "ascending a"
  shows "Int64Slice_Union a a = a \<and> Int64Slice_Intersect a a = a"
  by (simp add: Int64Slice_Union_rest Int64Slice_Intersect_rest union_rest_self intersect_rest_self)

text \<open>
  Claim C6 at \<open>a = [1, 1, 3]\<close>.
\<close>

theorem Union_Intersect_idem_witness:
  "ascending [1, 1, 3] \<and> Int64Slice_Union [1, 1, 3] [1, 1, 3] = [1, 1, 3] \<and>
   Int64Slice_Intersect [1, 1, 3] [1, 1, 3] = [1, 1, 3]"
  using Union_Intersect_idem [OF ascending_example1] ascending_example1 by simp

text \<open>
  Claim C7. For ascending \<open>a\<close> and \<open>b\<close>, \<open>Union(a, b)\<close> and \<open>Union(b, a)\<close> have the same
  content (the same elements with the same multiplicities), and
  \<open>Intersect(a, b) = Intersect(b, a)\<close>.
\<close>

theorem Union_Intersect_commute:
  assumes "ascending a" and "ascending b"
  shows "mset (Int64Slice_Union a b) = mset (Int64Slice_Union b a) \<and>
         Int64Slice_Intersect a b = Int64Slice_Intersect b a"
proof
  show "mset (Int64Slice_Union a b) = mset (Int64Slice_Union b a)"
  proof (rule multiset_eqI)
    fix v
    show "count (mset (Int64Slice_Union a b)) v = count (mset (Int64Slice_Union b a)) v"
      using count_Union [OF assms, of v] count_Union [OF assms(2) assms(1), of v]
      by (simp add: count_mset)
  qed
  have "\<forall>v. count_list (Int64Slice_Intersect a b) v = count_list (Int64Slice_Intersect b a) v"
    using count_Intersect [OF assms] count_Intersect [OF assms(2) assms(1)]
    by (simp add: min.commute)
  with ascending_Intersect [OF assms(1)] ascending_Intersect [OF assms(2)]
  show "Int64Slice_Intersect a b = Int64Slice_Intersect b a"
    by (rule ascending_count_unique)
qed

text \<open>
  Claim C7 at \<open>a = [1, 1, 3]\<close>, \<open>b = [1, 3, 3, 4]\<close>.
\<close>

theorem Union_Intersect_commute_witness:
  "ascending [1, 1, 3] \<and> ascending [1, 3, 3, 4] \<and>
   mset (Int64Slice_Union [1, 1, 3] [1, 3, 3, 4]) = mset (Int64Slice_Union [1, 3, 3, 4] [1, 1, 3]) \<and>
   Int64Slice_Intersect [1, 1, 3] [1, 3, 3, 4] = Int64Slice_Intersect [1, 3, 3, 4] [1, 1, 3]"
  using Union_Intersect_commute [OF ascending_example1 ascending_example2]
    ascending_example1 ascending_example2
  by simp

text \<open>
  Claim C10. For ascending \<open>a\<close> and \<open>b\<close> and every value \<open>v\<close>, \<open>v\<close> occurs in
  \<open>Union(a, b)\<close> as often as in the input that has it more often, and in \<open>Intersect(a, b)\<close>
  as often as in the input that has it less often; \<open>Union\<close> of the empty sequence with
  \<open>b\<close> is \<open>b\<close>, and \<open>Intersect\<close> with an empty sequence is empty.
\<close>

theorem Union_Intersect_counts:
  assumes "ascending a" and "ascending b"
  shows "(\<forall>v. count_list (Int64Slice_Union a b) v = max (count_list a v) (count_list b v)) \<and>
         (\<forall>v. count_list (Int64Slice_Intersect a b) v = min (count_list a v) (count_list b v)) \<and>
         Int64Slice_Union [] b = b \<and>
         Int64Slice_Intersect [] b = [] \<and>
         Int64Slice_Intersect a [] = []"
proof -
  have "intersect_rest a [] = []" by (induction a) (simp_all add: intersect_rest.simps)
  then show ?thesis
    using count_Union [OF assms] count_Intersect [OF assms]
    by (simp add: Int64Slice_Union_rest Int64Slice_Intersect_rest)
qed

text \<open>
  Claim C10 at \<open>a = [1, 1, 3]\<close>, \<open>b = [1, 3, 3, 4]\<close>, for the values \<open>1\<close> and \<open>3\<close>.
\<close>

theorem Union_Intersect_counts_witness:
  "ascending [1, 1, 3] \<and> ascending [1, 3, 3, 4] \<and>
   count_list (Int64Slice_Union [1, 1, 3] [1, 3, 3, 4]) 1 = 2 \<and>
   count_list (Int64Slice_Union [1, 1, 3] [1, 3, 3, 4]) 3 = 2 \<and>
   count_list (Int64Slice_Intersect [1, 1, 3] [1, 3, 3, 4]) 1 = 1 \<and>
   count_list (Int64Slice_Intersect [1, 1, 3] [1, 3, 3, 4]) 3 = 1"
  using Union_Intersect_counts [OF ascending_example1 ascending_example2]
    ascending_example1 ascending_example2
  by simp

section \<open>Packets and packet channels\<close>

text \<open>
  Modelled from the spec: \<open>gopacket.CaptureInfo\<close>, which \<open>Packet\<close> embeds, is declared
  outside this repository's sources. The spec describes a record as "opaque payload bytes
  plus a capture timestamp and capture metadata", never inspected "beyond its timestamp
  field". The code reads only \<open>Timestamp\<close>, and only through \<open>Timestamp.Before\<close>; an
  instant is an integer here and \<open>Before\<close> is \<open><\<close>.
\<close>

record CaptureInfo =
  Timestamp :: int

text \<open>
  \<open>type Packet struct { Data []byte; gopacket.CaptureInfo }\<close>: the embedded struct's
  fields are promoted, as the fields of the parent record are. A \<open>*Packet\<close> is a
  \<open>Packet option\<close>, \<open>None\<close> for \<open>nil\<close>.
\<close>

record Packet = CaptureInfo +
  Data :: "8 word list"

text \<open>A Go \<open>error\<close>; \<open>nil\<close> is \<open>None\<close> of \<open>error option\<close>.\<close>

type_synonym error = string

text \<open>
  The Go channel \<open>chan *Packet\<close> made by \<open>make(chan *Packet, buffer)\<close>: the queued
  pointers, its capacity, and whether it has been closed.
\<close>

record chan =
  chan_queue :: "Packet option list"
  chan_cap :: nat
  chan_closed :: bool

text \<open>
  \<open>type PacketChan struct { mu sync.Mutex; c chan *Packet; err error }\<close>. The mutex only
  makes each access of \<open>err\<close> atomic, which a sequential model has for free.
\<close>

record PacketChan =
  c :: chan
  err :: "error option"

text \<open>
  An operation on a channel returns, blocks the caller, or panics. A panic leaves the
  state it had reached.
\<close>

datatype 'a outcome = Returns 'a | Blocks | Panics 'a

definition NewPacketChan :: "nat \<Rightarrow> PacketChan" where
  "NewPacketChan buffer =
     \<lparr>c = \<lparr>chan_queue = [], chan_cap = buffer, chan_closed = False\<rparr>, err = None\<rparr>"

text \<open>
  \<open>func (p *PacketChan) Send(pkt *Packet) { p.c <- pkt }\<close>. A send on a closed channel
  panics; with room in the buffer it enqueues; otherwise the sender waits for a receiver.
\<close>

definition Send :: "PacketChan \<Rightarrow> Packet option \<Rightarrow> PacketChan outcome" where
  "Send p pkt =
     (if chan_closed (c p) then Panics p
      else if length (chan_queue (c p)) < chan_cap (c p)
      then Returns (p\<lparr>c := (c p)\<lparr>chan_queue := chan_queue (c p) @ [pkt]\<rparr>\<rparr>)
      else Blocks)"

text \<open>
  \<open><-p.Receive()\<close>: the oldest queued pointer; \<open>nil\<close> once the channel is closed and
  drained; otherwise the receiver waits.
\<close>

definition Receive :: "PacketChan \<Rightarrow> (Packet option \<times> PacketChan) outcome" where
  "Receive p =
     (case chan_queue (c p) of
        pkt # rest \<Rightarrow> Returns (pkt, p\<lparr>c := (c p)\<lparr>chan_queue := rest\<rparr>\<rparr>)
      | [] \<Rightarrow> if chan_closed (c p) then Returns (None, p) else Blocks)"

text \<open>
  \<open>func (p *PacketChan) Close(err error)\<close>: \<open>p.err = err\<close> under the lock, then
  \<open>close(p.c)\<close>, which panics on a channel that is already closed (the error has been
  overwritten by then).
\<close>

definition Close :: "PacketChan \<Rightarrow> error option \<Rightarrow> PacketChan outcome" where
  "Close p e =
     (let p' = p\<lparr>err := e\<rparr> in
      if chan_closed (c p') then Panics p'
      else Returns (p'\<lparr>c := (c p')\<lparr>chan_closed := True\<rparr>\<rparr>))"

text \<open>\<open>func (p *PacketChan) Err() error\<close>: \<open>p.err\<close>, read under the lock.\<close>

definition Err :: "PacketChan \<Rightarrow> error option" where
  "Err p = err p"

text \<open>
  The operations other than \<open>Close\<close> that a producer and a consumer apply to a channel,
  and the state they leave: a call that blocks or panics leaves the state as it was.
\<close>

datatype chan_op = DoSend "Packet option" | DoReceive

fun apply_op :: "chan_op \<Rightarrow> PacketChan \<Rightarrow> PacketChan" where
  "apply_op (DoSend pkt) p = (case Send p pkt of Returns p' \<Rightarrow> p' | _ \<Rightarrow> p)"
| "apply_op DoReceive p = (case Receive p of Returns (_, p') \<Rightarrow> p' | _ \<Rightarrow> p)"

lemma apply_op_err: "err (apply_op x p) = err p"
  by (cases x) (auto simp: Send_def Receive_def split: list.splits)

lemma fold_apply_op_err: "err (fold apply_op ops p) = err p"
  by (induction ops arbitrary: p) (simp_all add: apply_op_err)

text \<open>
  Claim C9. Whatever the channel's state and whatever \<open>e\<close> (nil or not), \<open>Close(e)\<close>
  leaves a channel whose \<open>Err()\<close> is exactly \<open>e\<close> and which is closed, so that every
  further send panics; and on a channel made by \<open>NewPacketChan\<close> and used for sends and
  receives only, with no \<open>Close\<close> yet, \<open>Err()\<close> is nil.
\<close>

theorem Close_Err:
  "(\<exists>p'. (Close p e = Returns p' \<or> Close p e = Panics p') \<and>
         Err p' = e \<and> chan_closed (c p') \<and> (\<forall>pkt. Send p' pkt = Panics p')) \<and>
   Err (NewPacketChan buffer) = None \<and>
   Err (fold apply_op ops (NewPacketChan buffer)) = None"
proof -
  have "\<exists>p'. (Close p e = Returns p' \<or> Close p e = Panics p') \<and>
         Err p' = e \<and> chan_closed (c p') \<and> (\<forall>pkt. Send p' pkt = Panics p')"
  proof (cases "chan_closed (c p)")
    case True
    then have "Close p e = Panics (p\<lparr>err := e\<rparr>)" by (simp add: Close_def)
    with True show ?thesis by (simp add: Err_def Send_def)
  next
    case False
    then have "Close p e = Returns (p\<lparr>err := e, c := (c p)\<lparr>chan_closed := True\<rparr>\<rparr>)"
      by (simp add: Close_def)
    then show ?thesis by (simp add: Err_def Send_def)
  qed
  moreover have "Err (NewPacketChan buffer) = None"
    by (simp add: Err_def NewPacketChan_def)
  moreover have "Err (fold apply_op ops (NewPacketChan buffer)) = None"
    by (simp add: Err_def fold_apply_op_err NewPacketChan_def)
  ultimately show ?thesis by blast
qed

section \<open>The merge heap\<close>

text \<open>
  \<open>type indexedPacket struct { *Packet; i int }\<close>. \<open>MergePacketChans\<close> wraps only
  pointers it has tested to be non-nil, so the embedded pointer is a \<open>Packet\<close>; the
  index \<open>i\<close> ranges over the positions of the input slice.
\<close>

record indexedPacket =
  ip_Packet :: Packet
  ip_i :: nat

type_synonym packetHeap = "indexedPacket list"

text \<open>
  The \<open>heap.Interface\<close> methods of \<open>packetHeap\<close>. Go panics on an index out of range;
  every call below passes indices within the slice (see \<open>heap_up\<close>, \<open>heap_down\<close> and
  \<open>heap_Pop\<close>).
\<close>

definition packetHeap_Len :: "packetHeap \<Rightarrow> nat" where
  "packetHeap_Len p = length p"

definition packetHeap_Swap :: "packetHeap \<Rightarrow> nat \<Rightarrow> nat \<Rightarrow> packetHeap" where
  "packetHeap_Swap p i j = p[i := p ! j, j := p ! i]"

definition packetHeap_Less :: "packetHeap \<Rightarrow> nat \<Rightarrow> nat \<Rightarrow> bool" where
  "packetHeap_Less p i j = (Timestamp (ip_Packet (p ! i)) < Timestamp (ip_Packet (p ! j)))"

definition packetHeap_Push :: "packetHeap \<Rightarrow> indexedPacket \<Rightarrow> packetHeap" where
  "packetHeap_Push p x = p @ [x]"

definition packetHeap_Pop :: "packetHeap \<Rightarrow> packetHeap \<times> indexedPacket" where
  "packetHeap_Pop p = (let index = length p - 1 in (take index p, p ! index))"

text \<open>
  Go's standard \<open>container/heap\<close>, which \<open>MergePacketChans\<close> calls, is not part of the
  repository; its functions are transcribed from the standard library.

  \<open>up(h, j)\<close>: \<open>for { i := (j - 1) / 2; if i == j || !h.Less(j, i) { break };
  h.Swap(i, j); j = i }\<close>. Go's \<open>(0 - 1) / 2\<close> truncates to \<open>0\<close>, which is also what
  \<open>(0 - 1) div 2\<close> gives on \<open>nat\<close>.
\<close>

function heap_up :: "packetHeap \<Rightarrow> nat \<Rightarrow> packetHeap" where
  "heap_up h j =
     (let i = (j - 1) div 2 in
      if i = j \<or> \<not> packetHeap_Less h j i then h
      else heap_up (packetHeap_Swap h i j) i)"
  by pat_completeness auto
termination
  by (relation "measure (\<lambda>(h, j). j)") auto

declare heap_up.simps [simp del]

text \<open>
  \<open>down(h, i, n)\<close>: \<open>for { j1 := 2*i + 1; if j1 >= n || j1 < 0 { break }; j := j1;
  if j2 := j1 + 1; j2 < n && h.Less(j2, j1) { j = j2 }; if !h.Less(j, i) { break };
  h.Swap(i, j); i = j }\<close>. The test \<open>j1 < 0\<close> guards against overflow of \<open>int\<close>, which
  no index of a slice in memory reaches. Earlier releases of the library choose the
  right child by \<open>!h.Less(j1, j2)\<close> instead of \<open>h.Less(j2, j1)\<close>: the two differ when
  both children have the same timestamp. The flag \<open>old\<close> selects the earlier test, and
  every statement below holds for both.
\<close>

definition right_child :: "bool \<Rightarrow> packetHeap \<Rightarrow> nat \<Rightarrow> nat \<Rightarrow> bool" where
  "right_child old h j1 j2 =
     (if old then \<not> packetHeap_Less h j1 j2 else packetHeap_Less h j2 j1)"

text \<open>The child \<open>j\<close> that \<open>down\<close> compares with \<open>i\<close>, given the left child \<open>j1 < n\<close>.\<close>

definition down_child :: "bool \<Rightarrow> packetHeap \<Rightarrow> nat \<Rightarrow> nat \<Rightarrow> nat" where
  "down_child old h j1 n =
     (let j2 = j1 + 1 in if j2 < n \<and> right_child old h j1 j2 then j2 else j1)"

function heap_down :: "bool \<Rightarrow> packetHeap \<Rightarrow> nat \<Rightarrow> nat \<Rightarrow> packetHeap" where
  "heap_down old h i n =
     (let j1 = 2 * i + 1 in
      if j1 \<ge> n then h
      else
        let j = down_child old h j1 n
        in if \<not> packetHeap_Less h j i then h
           else heap_down old (packetHeap_Swap h i j) j n)"
  by pat_completeness auto
termination
  by (relation "measure (\<lambda>(old, h, i, n). n - i)") (auto simp: Let_def down_child_def)

declare heap_down.simps [simp del]

text \<open>\<open>heap.Push(h, x)\<close>: \<open>h.Push(x); up(h, h.Len()-1)\<close>.\<close>

definition heap_Push :: "packetHeap \<Rightarrow> indexedPacket \<Rightarrow> packetHeap" where
  "heap_Push h x =
     (let h' = packetHeap_Push h x in heap_up h' (packetHeap_Len h' - 1))"

text \<open>
  \<open>heap.Pop(h)\<close>: \<open>n := h.Len() - 1; h.Swap(0, n); down(h, 0, n); return h.Pop()\<close>.
  On an empty heap \<open>h.Swap(0, -1)\<close> panics: \<open>None\<close>.
\<close>

definition heap_Pop :: "bool \<Rightarrow> packetHeap \<Rightarrow> (packetHeap \<times> indexedPacket) option" where
  "heap_Pop old h =
     (if packetHeap_Len h = 0 then None
      else
        let n = packetHeap_Len h - 1;
            h' = heap_down old (packetHeap_Swap h 0 n) 0 n
        in Some (packetHeap_Pop h'))"

subsection \<open>Heap order, and what \<open>heap.Push\<close> and \<open>heap.Pop\<close> keep of it\<close>

text \<open>
  The key of an entry is its packet's timestamp. \<open>heap_ok h n\<close>: among the first \<open>n\<close>
  entries no entry is earlier than its parent, the entry at \<open>(k - 1) div 2\<close>. \<open>up_inv\<close>
  and \<open>down_inv\<close> are the loop invariants of \<open>up\<close> and \<open>down\<close>: heap order everywhere
  except between the moving entry and its parent (its children), whose neighbours are
  already in order with each other.
\<close>

abbreviation key :: "indexedPacket \<Rightarrow> int" where
  "key x \<equiv> Timestamp (ip_Packet x)"

definition heap_ok :: "packetHeap \<Rightarrow> nat \<Rightarrow> bool" where
  "heap_ok h n = (\<forall>k. 0 < k \<and> k < n \<longrightarrow> key (h ! ((k - 1) div 2)) \<le> key (h ! k))"

definition up_inv :: "packetHeap \<Rightarrow> nat \<Rightarrow> nat \<Rightarrow> bool" where
  "up_inv h j n =
     ((\<forall>k. 0 < k \<and> k < n \<and> k \<noteq> j \<longrightarrow> key (h ! ((k - 1) div 2)) \<le> key (h ! k)) \<and>
      (\<forall>k. 0 < k \<and> k < n \<and> (k - 1) div 2 = j \<and> 0 < j \<longrightarrow>
           key (h ! ((j - 1) div 2)) \<le> key (h ! k)))"

definition down_inv :: "packetHeap \<Rightarrow> nat \<Rightarrow> nat \<Rightarrow> bool" where
  "down_inv h i n =
     ((\<forall>k. 0 < k \<and> k < n \<and> (k - 1) div 2 \<noteq> i \<longrightarrow> key (h ! ((k - 1) div 2)) \<le> key (h ! k)) \<and>
      (\<forall>k. 0 < k \<and> k < n \<and> (k - 1) div 2 = i \<and> 0 < i \<longrightarrow>
           key (h ! ((i - 1) div 2)) \<le> key (h ! k)))"

lemma Swap_length [simp]: "length (packetHeap_Swap h i j) = length h"
  by (simp add: packetHeap_Swap_def)

lemma Swap_mset: "i < length h \<Longrightarrow> j < length h \<Longrightarrow> mset (packetHeap_Swap h i j) = mset h"
  by (simp add: packetHeap_Swap_def mset_swap)

lemma Swap_nth:
  "i < length h \<Longrightarrow> j < length h \<Longrightarrow> k < length h \<Longrightarrow>
   packetHeap_Swap h i j ! k = (if k = j then h ! i else if k = i then h ! j else h ! k)"
  by (simp add: packetHeap_Swap_def nth_list_update)

lemma heap_up_length: "length (heap_up h j) = length h"
proof (induction h j rule: heap_up.induct)
  case (1 h j)
  then show ?case by (subst heap_up.simps) (simp add: Let_def)
qed

lemma heap_up_mset: "j < length h \<Longrightarrow> mset (heap_up h j) = mset h"
proof (induction h j rule: heap_up.induct)
  case (1 h j)
  let ?i = "(j - 1) div 2"
  have i: "?i < length h" using "1.prems" by simp
  show ?case
  proof (cases "?i = j \<or> \<not> packetHeap_Less h j ?i")
    case True
    then show ?thesis by (subst heap_up.simps) (simp add: Let_def)
  next
    case False
    then have "mset (heap_up (packetHeap_Swap h ?i j) ?i) = mset (packetHeap_Swap h ?i j)"
      using "1.IH" [of ?i] i by simp
    with False i "1.prems" show ?thesis
      by (subst heap_up.simps) (simp add: Let_def Swap_mset)
  qed
qed

lemma down_child_range:
  "j1 < n \<Longrightarrow> (down_child old h j1 n = j1 \<or> down_child old h j1 n = j1 + 1) \<and>
     down_child old h j1 n < n"
  by (simp add: down_child_def Let_def)

lemma down_child_least:
  assumes "j1 < n"
  shows "key (h ! down_child old h j1 n) \<le> key (h ! j1) \<and>
         (j1 + 1 < n \<longrightarrow> key (h ! down_child old h j1 n) \<le> key (h ! (j1 + 1)))"
  by (cases old) (auto simp: down_child_def Let_def right_child_def packetHeap_Less_def)

lemma heap_down_stop:
  "n \<le> 2 * i + 1 \<or> \<not> packetHeap_Less h (down_child old h (2 * i + 1) n) i \<Longrightarrow>
   heap_down old h i n = h"
  by (subst heap_down.simps) (auto simp: Let_def)

lemma heap_down_step:
  "2 * i + 1 < n \<Longrightarrow> packetHeap_Less h (down_child old h (2 * i + 1) n) i \<Longrightarrow>
   heap_down old h i n =
     heap_down old (packetHeap_Swap h i (down_child old h (2 * i + 1) n))
       (down_child old h (2 * i + 1) n) n"
  by (subst heap_down.simps) (simp add: Let_def)

lemma heap_down_length: "length (heap_down old h i n) = length h"
proof (induction old h i n rule: heap_down.induct)
  case (1 old h i n)
  then show ?case by (subst heap_down.simps) (simp add: Let_def)
qed

lemma heap_down_mset: "n \<le> length h \<Longrightarrow> mset (heap_down old h i n) = mset h"
proof (induction old h i n rule: heap_down.induct)
  case (1 old h i n)
  let ?j = "down_child old h (2 * i + 1) n"
  show ?case
  proof (cases "2 * i + 1 < n \<and> packetHeap_Less h ?j i")
    case False
    then have "heap_down old h i n = h" by (intro heap_down_stop) auto
    then show ?thesis by simp
  next
    case True
    then have j: "?j < n" using down_child_range [of "2 * i + 1" n old h] by simp
    from True have i: "i < n" by simp
    have "mset (heap_down old (packetHeap_Swap h i ?j) ?j n) = mset (packetHeap_Swap h i ?j)"
      using "1.IH" [OF refl _ refl] True "1.prems" by simp
    also have "\<dots> = mset h" using i j "1.prems" by (simp add: Swap_mset)
    finally show ?thesis using True by (simp add: heap_down_step)
  qed
qed

lemma heap_down_nth_above:
  "n \<le> length h \<Longrightarrow> n \<le> k \<Longrightarrow> k < length h \<Longrightarrow> heap_down old h i n ! k = h ! k"
proof (induction old h i n rule: heap_down.induct)
  case (1 old h i n)
  let ?j = "down_child old h (2 * i + 1) n"
  show ?case
  proof (cases "2 * i + 1 < n \<and> packetHeap_Less h ?j i")
    case False
    then have "heap_down old h i n = h" by (intro heap_down_stop) auto
    then show ?thesis by simp
  next
    case True
    then have j: "?j < n" using down_child_range [of "2 * i + 1" n old h] by simp
    from True have i: "i < n" by simp
    have "heap_down old (packetHeap_Swap h i ?j) ?j n ! k = packetHeap_Swap h i ?j ! k"
      using "1.IH" [OF refl _ refl] True "1.prems" by simp
    also have "\<dots> = h ! k" using i j "1.prems" by (simp add: Swap_nth)
    finally show ?thesis using True by (simp add: heap_down_step)
  qed
qed

lemma parent_cases: "0 < k \<Longrightarrow> ((k - 1) div 2 = i) = (k = 2 * i + 1 \<or> k = 2 * i + (2::nat))"
  by arith

lemma parent_less: "0 < k \<Longrightarrow> (k - 1) div 2 < (k::nat)"
  by arith

lemma heap_up_stop:
  "(j - 1) div 2 = j \<or> \<not> packetHeap_Less h j ((j - 1) div 2) \<Longrightarrow> heap_up h j = h"
  by (subst heap_up.simps) (auto simp: Let_def)

lemma heap_up_step:
  "(j - 1) div 2 \<noteq> j \<Longrightarrow> packetHeap_Less h j ((j - 1) div 2) \<Longrightarrow>
   heap_up h j = heap_up (packetHeap_Swap h ((j - 1) div 2) j) ((j - 1) div 2)"
  by (subst heap_up.simps) (simp add: Let_def)

lemma heap_up_ok:
  "up_inv h j n \<Longrightarrow> j < n \<Longrightarrow> n \<le> length h \<Longrightarrow> heap_ok (heap_up h j) n"
proof (induction h j rule: heap_up.induct)
  case (1 h j)
  define i where "i = (j - 1) div 2"
  define par where "par k = (k - 1) div 2" for k :: nat
  have par_less: "par k < k" if "0 < k" for k using that by (simp add: par_def)
  have i_par: "i = par j" by (simp add: i_def par_def)
  have inv1: "key (h ! par k) \<le> key (h ! k)" if "0 < k" "k < n" "k \<noteq> j" for k
    using "1.prems"(1) that by (simp add: up_inv_def par_def)
  have inv2: "key (h ! i) \<le> key (h ! k)" if "0 < k" "k < n" "par k = j" "0 < j" for k
    using "1.prems"(1) that by (simp add: up_inv_def par_def i_def)
  show ?case
  proof (cases "i = j \<or> \<not> packetHeap_Less h j i")
    case True
    then have stop: "heap_up h j = h" unfolding i_def by (rule heap_up_stop)
    have "key (h ! par k) \<le> key (h ! k)" if k: "0 < k" "k < n" for k
    proof (cases "k = j")
      case False
      with k show ?thesis by (simp add: inv1)
    next
      case kj: True
      with k par_less [of j] have "i \<noteq> j" by (simp add: i_par)
      with True have "\<not> packetHeap_Less h j i" by blast
      then show ?thesis by (simp add: kj packetHeap_Less_def i_par)
    qed
    then show ?thesis by (simp add: stop heap_ok_def par_def)
  next
    case False
    then have ij: "i \<noteq> j" and lt: "key (h ! j) < key (h ! i)"
      by (simp_all add: packetHeap_Less_def)
    from ij have j0: "0 < j" by (auto simp: i_def)
    then have i_lt: "i < j" using par_less [of j] by (simp add: i_par)
    define h' where "h' = packetHeap_Swap h i j"
    have len: "j < length h" "i < length h" using "1.prems" i_lt by simp_all
    have nth: "h' ! k = (if k = j then h ! i else if k = i then h ! j else h ! k)"
      if "k < n" for k
      using that len "1.prems"(3) by (simp add: h'_def Swap_nth)
    have step: "heap_up h j = heap_up h' i"
      using False unfolding i_def h'_def by (intro heap_up_step) auto
    have new1: "key (h' ! par k) \<le> key (h' ! k)" if k: "0 < k" "k < n" "k \<noteq> i" for k
    proof -
      from k par_less [of k] have p: "par k < n" "par k \<noteq> k" by simp_all
      show ?thesis
      proof (cases "k = j")
        case True
        with lt k p show ?thesis by (simp add: nth i_par [symmetric])
      next
        case kj: False
        show ?thesis
        proof (cases "par k = j")
          case True
          with k j0 have "key (h ! i) \<le> key (h ! k)" by (simp add: inv2)
          with True kj k p ij show ?thesis by (simp add: nth)
        next
          case pj: False
          from k kj have le: "key (h ! par k) \<le> key (h ! k)" by (simp add: inv1)
          show ?thesis
          proof (cases "par k = i")
            case True
            with le lt kj k p pj show ?thesis by (simp add: nth)
          next
            case False
            with le kj k p pj show ?thesis by (simp add: nth)
          qed
        qed
      qed
    qed
    have new2: "key (h' ! par i) \<le> key (h' ! k)"
      if k: "0 < k" "k < n" "par k = i" "0 < i" for k
    proof -
      from k par_less [of i] i_lt "1.prems"(2) have g: "par i < i" "par i < n" "i < n"
        by simp_all
      from k par_less [of k] have ki: "k \<noteq> i" by auto
      from k ij g have gi: "key (h ! par i) \<le> key (h ! i)" by (simp add: inv1)
      have hg: "h' ! par i = h ! par i" using g i_lt by (simp add: nth)
      show ?thesis
      proof (cases "k = j")
        case True
        with gi hg k show ?thesis by (simp add: nth)
      next
        case False
        with k inv1 [of k] have "key (h ! i) \<le> key (h ! k)" by simp
        with gi hg False ki k show ?thesis by (simp add: nth)
      qed
    qed
    have "up_inv h' i n"
      unfolding up_inv_def using new1 new2 by (auto simp: par_def)
    then have "heap_ok (heap_up h' i) n"
      using "1.IH" [of i] False i_lt "1.prems" by (simp add: i_def h'_def)
    then show ?thesis by (simp only: step)
  qed
qed

lemma heap_down_ok:
  "down_inv h i n \<Longrightarrow> n \<le> length h \<Longrightarrow> heap_ok (heap_down old h i n) n"
proof (induction old h i n rule: heap_down.induct)
  case (1 old h i n)
  define j where "j = down_child old h (2 * i + 1) n"
  define par where "par k = (k - 1) div 2" for k :: nat
  have par_less: "par k < k" if "0 < k" for k using that by (simp add: par_def)
  have par_eq: "(par k = m) = (k = 2 * m + 1 \<or> k = 2 * m + 2)" if "0 < k" for k m
    using that unfolding par_def by (rule parent_cases)
  have inv1: "key (h ! par k) \<le> key (h ! k)" if "0 < k" "k < n" "par k \<noteq> i" for k
    using "1.prems"(1) that by (simp add: down_inv_def par_def)
  have inv2: "key (h ! par i) \<le> key (h ! k)" if "0 < k" "k < n" "par k = i" "0 < i" for k
    using "1.prems"(1) that by (simp add: down_inv_def par_def)
  show ?case
  proof (cases "2 * i + 1 < n")
    case False
    then have stop: "heap_down old h i n = h" by (intro heap_down_stop) simp
    have "key (h ! par k) \<le> key (h ! k)" if k: "0 < k" "k < n" for k
    proof -
      from k False have "par k \<noteq> i" by (auto simp: par_eq)
      with k show ?thesis by (simp add: inv1)
    qed
    then show ?thesis by (simp add: stop heap_ok_def par_def)
  next
    case j1: True
    then have jr: "j = 2 * i + 1 \<or> j = 2 * i + 2" and jn: "j < n"
      using down_child_range [of "2 * i + 1" n old h] by (auto simp: j_def)
    have jl: "key (h ! j) \<le> key (h ! (2 * i + 1))"
      and jl2: "2 * i + 2 < n \<Longrightarrow> key (h ! j) \<le> key (h ! (2 * i + 2))"
      using down_child_least [OF j1, of h old] by (simp_all add: j_def)
    have child: "key (h ! j) \<le> key (h ! k)" if "0 < k" "k < n" "par k = i" for k
    proof -
      from that have "k = 2 * i + 1 \<or> k = 2 * i + 2" by (simp add: par_eq)
      with that jl jl2 show ?thesis by auto
    qed
    from jr jn have ij: "i < j" "par j = i" "0 < j" "i < n" by (auto simp: par_eq)
    show ?thesis
    proof (cases "packetHeap_Less h j i")
      case False
      then have stop: "heap_down old h i n = h"
        unfolding j_def by (intro heap_down_stop) simp
      from False have le: "key (h ! i) \<le> key (h ! j)" by (simp add: packetHeap_Less_def)
      have "key (h ! par k) \<le> key (h ! k)" if k: "0 < k" "k < n" for k
      proof (cases "par k = i")
        case True
        with k child [of k] le show ?thesis by simp
      next
        case False
        with k show ?thesis by (simp add: inv1)
      qed
      then show ?thesis by (simp add: stop heap_ok_def par_def)
    next
      case True
      then have lt: "key (h ! j) < key (h ! i)" by (simp add: packetHeap_Less_def)
      define h' where "h' = packetHeap_Swap h i j"
      have nth: "h' ! k = (if k = j then h ! i else if k = i then h ! j else h ! k)"
        if "k < n" for k
        using that ij jn "1.prems"(2) by (simp add: h'_def Swap_nth)
      have step: "heap_down old h i n = heap_down old h' j n"
        using j1 True unfolding j_def h'_def by (intro heap_down_step) simp_all
      have new1: "key (h' ! par k) \<le> key (h' ! k)" if k: "0 < k" "k < n" "par k \<noteq> j" for k
      proof -
        from k par_less [of k] have p: "par k < n" "par k \<noteq> k" by simp_all
        show ?thesis
        proof (cases "k = j")
          case True
          with lt ij jn show ?thesis by (simp add: nth)
        next
          case kj: False
          show ?thesis
          proof (cases "k = i")
            case True
            from True k have i0: "0 < i" by simp
            from par_less [OF i0] ij have g: "par i \<noteq> i" "par i \<noteq> j" "par i < n"
              using jn by simp_all
            from inv2 [of j] ij jn i0 have "key (h ! par i) \<le> key (h ! j)" by simp
            with True g k ij show ?thesis by (simp add: nth)
          next
            case ki: False
            show ?thesis
            proof (cases "par k = i")
              case True
              with k child [of k] have "key (h ! j) \<le> key (h ! k)" by simp
              with True kj ki k ij show ?thesis by (simp add: nth)
            next
              case False
              with k inv1 [of k] have "key (h ! par k) \<le> key (h ! k)" by simp
              with False kj ki k p show ?thesis by (simp add: nth)
            qed
          qed
        qed
      qed
      have new2: "key (h' ! par j) \<le> key (h' ! k)" if k: "0 < k" "k < n" "par k = j" for k
      proof -
        from k par_less [of k] ij have kk: "k \<noteq> j" "k \<noteq> i" by auto
        from k ij inv1 [of k] have "key (h ! j) \<le> key (h ! k)" by simp
        with kk k ij jn show ?thesis by (simp add: nth)
      qed
      have "down_inv h' j n"
        unfolding down_inv_def using new1 new2 by (auto simp: par_def)
      then have "heap_ok (heap_down old h' j n) n"
        using "1.IH" [OF refl _ refl] j1 True "1.prems"(2) by (simp add: j_def h'_def)
      then show ?thesis by (simp only: step)
    qed
  qed
qed

lemma heap_ok_root:
  "heap_ok h n \<Longrightarrow> k < n \<Longrightarrow> key (h ! 0) \<le> key (h ! k)"
proof (induction k rule: less_induct)
  case (less k)
  show ?case
  proof (cases "k = 0")
    case True
    then show ?thesis by simp
  next
    case False
    then have p: "(k - 1) div 2 < k" by arith
    with less.prems have "key (h ! 0) \<le> key (h ! ((k - 1) div 2))"
      by (intro less.IH) simp_all
    moreover from less.prems False have "key (h ! ((k - 1) div 2)) \<le> key (h ! k)"
      by (simp add: heap_ok_def)
    ultimately show ?thesis by simp
  qed
qed

definition heap_inv :: "packetHeap \<Rightarrow> bool" where
  "heap_inv h = heap_ok h (length h)"

lemma heap_inv_Nil: "heap_inv []"
  by (simp add: heap_inv_def heap_ok_def)

lemma heap_Push_length: "length (heap_Push h x) = Suc (length h)"
  by (simp add: heap_Push_def packetHeap_Push_def packetHeap_Len_def heap_up_length)

lemma heap_Push_mset: "mset (heap_Push h x) = add_mset x (mset h)"
  by (simp add: heap_Push_def packetHeap_Push_def packetHeap_Len_def heap_up_mset)

lemma heap_Push_inv:
  assumes "heap_inv h"
  shows "heap_inv (heap_Push h x)"
proof -
  have "up_inv (h @ [x]) (length h) (Suc (length h))"
    unfolding up_inv_def
  proof (intro conjI allI impI)
    fix k assume k: "0 < k \<and> k < Suc (length h) \<and> k \<noteq> length h"
    then have "k < length h" "(k - 1) div 2 < length h" by arith+
    with assms k show "key ((h @ [x]) ! ((k - 1) div 2)) \<le> key ((h @ [x]) ! k)"
      by (simp add: heap_inv_def heap_ok_def nth_append)
  next
    fix k assume "0 < k \<and> k < Suc (length h) \<and> (k - 1) div 2 = length h \<and> 0 < length h"
    then have False by arith
    then show "key ((h @ [x]) ! ((length h - 1) div 2)) \<le> key ((h @ [x]) ! k)" ..
  qed
  then have "heap_ok (heap_up (h @ [x]) (length h)) (Suc (length h))"
    by (rule heap_up_ok) simp_all
  then show ?thesis
    by (simp add: heap_inv_def heap_Push_def packetHeap_Push_def packetHeap_Len_def
        heap_up_length)
qed

lemma heap_Pop_Some:
  assumes "h \<noteq> []"
  shows "\<exists>h'. heap_Pop old h = Some (h', h ! 0) \<and> mset h = add_mset (h ! 0) (mset h') \<and>
           length h = Suc (length h') \<and> (heap_inv h \<longrightarrow> heap_inv h')"
proof -
  define n where "n = length h - 1"
  define h1 where "h1 = packetHeap_Swap h 0 n"
  define h2 where "h2 = heap_down old h1 0 n"
  from assms have n: "n < length h" "length h = Suc n" by (simp_all add: n_def)
  have l1: "length h1 = length h" by (simp add: h1_def)
  have l2: "length h2 = length h" by (simp add: h2_def heap_down_length l1)
  have pop: "heap_Pop old h = Some (take n h2, h2 ! n)"
    using assms
    by (simp add: heap_Pop_def packetHeap_Len_def packetHeap_Pop_def Let_def n_def h1_def
        h2_def heap_down_length)
  have "h2 ! n = h1 ! n"
    unfolding h2_def using n l1 by (intro heap_down_nth_above) simp_all
  also have "\<dots> = h ! 0" using n by (simp add: h1_def Swap_nth)
  finally have last: "h2 ! n = h ! 0" .
  have "mset h2 = mset h1" unfolding h2_def using n l1 by (intro heap_down_mset) simp
  also have "\<dots> = mset h" unfolding h1_def using n by (intro Swap_mset) simp_all
  finally have m: "mset h2 = mset h" .
  have "h2 = take n h2 @ [h2 ! n]"
    using n l2 take_Suc_conv_app_nth [of n h2] by simp
  then have "mset h2 = add_mset (h2 ! n) (mset (take n h2))"
    by (metis mset.simps(2) mset_append union_mset_add_mset_right add.right_neutral mset.simps(1))
  with m last have ms: "mset h = add_mset (h ! 0) (mset (take n h2))" by simp
  have len: "length h = Suc (length (take n h2))" using n l2 by simp
  have inv: "heap_inv (take n h2)" if "heap_inv h"
  proof -
    have "down_inv h1 0 n"
      unfolding down_inv_def
    proof (intro conjI allI impI)
      fix k assume k: "0 < k \<and> k < n \<and> (k - 1) div 2 \<noteq> 0"
      then have p: "(k - 1) div 2 < n" "(k - 1) div 2 < length h" "k < length h"
        using n by arith+
      from that k n have "key (h ! ((k - 1) div 2)) \<le> key (h ! k)"
        by (simp add: heap_inv_def heap_ok_def)
      moreover have "h1 ! k = h ! k" using k n p by (simp add: h1_def Swap_nth)
      moreover have "h1 ! ((k - 1) div 2) = h ! ((k - 1) div 2)"
        using k n p by (simp add: h1_def Swap_nth)
      ultimately show "key (h1 ! ((k - 1) div 2)) \<le> key (h1 ! k)" by simp
    next
      fix k assume "0 < k \<and> k < n \<and> (k - 1) div 2 = 0 \<and> (0::nat) < 0"
      then show "key (h1 ! ((0 - 1) div 2)) \<le> key (h1 ! k)" by simp
    qed
    then have "heap_ok h2 n"
      unfolding h2_def using n l1 by (intro heap_down_ok) simp_all
    then have "heap_ok (take n h2) n"
      unfolding heap_ok_def
    proof (intro allI impI)
      fix k assume ok: "\<forall>k. 0 < k \<and> k < n \<longrightarrow> key (h2 ! ((k - 1) div 2)) \<le> key (h2 ! k)"
        and k: "0 < k \<and> k < n"
      then have "(k - 1) div 2 < n" by arith
      with ok k show "key (take n h2 ! ((k - 1) div 2)) \<le> key (take n h2 ! k)" by simp
    qed
    then show ?thesis using n l2 by (simp add: heap_inv_def)
  qed
  from pop ms len inv last show ?thesis by auto
qed

lemma heap_inv_root_least:
  assumes "heap_inv h" and "y \<in> set h"
  shows "key (h ! 0) \<le> key y"
proof -
  from assms(2) obtain k where "k < length h" "y = h ! k" by (auto simp: in_set_conv_nth)
  with assms(1) show ?thesis by (simp add: heap_inv_def heap_ok_root)
qed

section \<open>\<open>MergePacketChans\<close>\<close>

text \<open>
  \<open>MergePacketChans\<close> runs in a goroutine of its own, next to one producer per input
  channel. What the merge goroutine can see of input \<open>in[i]\<close> is fixed by what its
  producer does: the pointers it sends, in order (\<open>sends\<close>), the error it passes to
  \<open>Close\<close> (\<open>close_err\<close>), and when it calls \<open>Close\<close> (\<open>close_tick\<close>). The producers
  call \<open>Close\<close> on the elements of the slice \<open>in\<close> themselves, so that \<open>in[i].Err()\<close>
  can see the error at all.

  The clock \<open>ms_now\<close> counts the receive operations the merge goroutine has completed.
  The goroutine reads the \<open>err\<close> of a channel at most once per clock value, and
  \<open>close_tick\<close> is the first clock value at which such a read sees what \<open>Close\<close>
  stored: \<open>0\<close> for a producer that closes before the merge looks at its channel, \<open>t + 1\<close>
  for one that closes after the reads at clock \<open>t\<close>, for instance while the merge waits
  in its next receive. With a buffer large enough for its packets a producer can close
  at any time, whatever it has sent. Every producer is taken to close its channel
  eventually (otherwise the merge blocks forever), and the consumer of \<open>out\<close> to keep
  receiving.
\<close>

record Input =
  sends :: "Packet option list"
  close_err :: "error option"
  close_tick :: nat

text \<open>The \<open>err\<close> field of the input's \<open>PacketChan\<close> at time \<open>t\<close>.\<close>

definition Err_at :: "Input \<Rightarrow> nat \<Rightarrow> error option" where
  "Err_at ch t = (if close_tick ch \<le> t then close_err ch else None)"

text \<open>
  The goroutine's state between iterations of its two loops: where it is (\<open>ms_pc\<close>),
  the time, the inputs with what is still to be received from each, the heap \<open>h\<close>, the
  pointers sent on \<open>out.c\<close> so far, the error stored by \<open>out.Close\<close>, and \<open>count\<close>.
  The deferred \<open>Discard\<close> calls and the log line run after \<open>out\<close> is closed and do not
  touch it.
\<close>

datatype merge_pc = Priming nat | Looping | Returned | Panicked

record merge_state =
  ms_pc :: merge_pc
  ms_now :: nat
  ms_in :: "Input list"
  ms_h :: packetHeap
  ms_out :: "Packet list"
  ms_err :: "error option"
  ms_count :: nat

text \<open>
  \<open>pkt := <-in[i].Receive()\<close>: the next pointer the producer sent. When there is none
  left, the receive waits for the producer's \<open>Close\<close> and returns \<open>nil\<close>: a read of
  \<open>err\<close> after it sees what \<open>Close\<close> stored, so the clock is at \<open>close_tick\<close> at
  least.
\<close>

definition receive :: "nat \<Rightarrow> merge_state \<Rightarrow> Packet option \<times> merge_state" where
  "receive i st =
     (case sends (ms_in st ! i) of
        pkt # rest \<Rightarrow>
          (pkt, st\<lparr>ms_in := (ms_in st)[i := (ms_in st ! i)\<lparr>sends := rest\<rparr>],
                   ms_now := ms_now st + 1\<rparr>)
      | [] \<Rightarrow>
          (None, st\<lparr>ms_now := max (ms_now st + 1) (close_tick (ms_in st ! i))\<rparr>))"

text \<open>\<open>if pkt != nil { heap.Push(&h, indexedPacket{Packet: pkt, i: i}) }\<close>.\<close>

definition push_received :: "nat \<Rightarrow> Packet option \<Rightarrow> merge_state \<Rightarrow> merge_state" where
  "push_received i pkt st =
     (case pkt of
        Some p \<Rightarrow> st\<lparr>ms_h := heap_Push (ms_h st) \<lparr>ip_Packet = p, ip_i = i\<rparr>\<rparr>
      | None \<Rightarrow> st)"

text \<open>\<open>if err != nil { out.Close(err); return }\<close>, and otherwise on to \<open>pc\<close>.\<close>

definition close_on :: "error option \<Rightarrow> merge_pc \<Rightarrow> merge_state \<Rightarrow> merge_state" where
  "close_on e pc st =
     (case e of
        Some x \<Rightarrow> st\<lparr>ms_err := Some x, ms_pc := Returned\<rparr>
      | None \<Rightarrow> st\<lparr>ms_pc := pc\<rparr>)"

text \<open>
  One iteration of \<open>for i, c := range in\<close>. The range clause copies the struct \<open>in[i]\<close>
  into \<open>c\<close> when the iteration starts, so \<open>c.Err()\<close> reads the \<open>err\<close> that \<open>in[i]\<close>
  had then, before the receive; \<open>c.Receive()\<close> is the shared Go channel.
\<close>

definition prime_step :: "nat \<Rightarrow> merge_state \<Rightarrow> merge_state" where
  "prime_step i st =
     (let c_err = Err_at (ms_in st ! i) (ms_now st);
          (pkt, st1) = receive i st;
          st2 = push_received i pkt st1
      in close_on c_err (Priming (i + 1)) st2)"

text \<open>
  One iteration of \<open>for h.Len() > 0\<close>: \<open>p := heap.Pop(&h)\<close>, \<open>count++\<close>, the receive
  from \<open>in[p.i]\<close> and the push, \<open>out.c <- p.Packet\<close>, and \<open>in[p.i].Err()\<close>, which reads
  the channel's own \<open>err\<close> at that moment. Indexing \<open>in\<close> out of range panics.
\<close>

definition loop_step :: "bool \<Rightarrow> merge_state \<Rightarrow> merge_state" where
  "loop_step old st =
     (case heap_Pop old (ms_h st) of
        None \<Rightarrow> st\<lparr>ms_pc := Panicked\<rparr>
      | Some (h', p) \<Rightarrow>
          if ip_i p \<ge> length (ms_in st) then st\<lparr>ms_pc := Panicked\<rparr>
          else
            let st1 = st\<lparr>ms_h := h', ms_count := ms_count st + 1\<rparr>;
                (pkt, st2) = receive (ip_i p) st1;
                st3 = push_received (ip_i p) pkt st2;
                st4 = st3\<lparr>ms_out := ms_out st3 @ [ip_Packet p]\<rparr>
            in close_on (Err_at (ms_in st4 ! ip_i p) (ms_now st4)) Looping st4)"

text \<open>
  One step of the goroutine: a priming iteration or the end of the priming loop, a main
  loop iteration or, when the heap is empty, \<open>out.Close(nil)\<close>.
\<close>

definition merge_step :: "bool \<Rightarrow> merge_state \<Rightarrow> merge_state" where
  "merge_step old st =
     (case ms_pc st of
        Priming i \<Rightarrow>
          if i < length (ms_in st) then prime_step i st else st\<lparr>ms_pc := Looping\<rparr>
      | Looping \<Rightarrow>
          if packetHeap_Len (ms_h st) > 0 then loop_step old st
          else st\<lparr>ms_err := None, ms_pc := Returned\<rparr>
      | Returned \<Rightarrow> st
      | Panicked \<Rightarrow> st)"

text \<open>The state in which the goroutine starts: \<open>count := 0\<close>, \<open>var h packetHeap\<close>.\<close>

definition merge_init :: "Input list \<Rightarrow> merge_state" where
  "merge_init ins =
     \<lparr>ms_pc = Priming 0, ms_now = 0, ms_in = ins, ms_h = [], ms_out = [],
      ms_err = None, ms_count = 0\<rparr>"

text \<open>What is left to do, at most: the measure by which the goroutine terminates.\<close>

definition pending :: "merge_state \<Rightarrow> nat" where
  "pending st = sum_list (map (\<lambda>ch. length (sends ch)) (ms_in st)) + length (ms_h st)"

definition steps_left :: "merge_state \<Rightarrow> nat" where
  "steps_left st =
     (case ms_pc st of
        Priming i \<Rightarrow> (length (ms_in st) - i) + 2 + pending st
      | Looping \<Rightarrow> 1 + pending st
      | Returned \<Rightarrow> 0
      | Panicked \<Rightarrow> 0)"

subsection \<open>Termination\<close>

lemma receive_in_length: "length (ms_in (snd (receive i st))) = length (ms_in st)"
  by (simp add: receive_def split: list.splits)

lemma receive_h: "ms_h (snd (receive i st)) = ms_h st"
  by (simp add: receive_def split: list.splits)

lemma sum_sends_update:
  assumes "i < length ins" and "sends (ins ! i) = pkt # rest"
  shows "sum_list (map (\<lambda>ch. length (sends ch)) (ins[i := (ins ! i)\<lparr>sends := rest\<rparr>])) + 1 =
         sum_list (map (\<lambda>ch. length (sends ch)) ins)"
proof -
  let ?f = "\<lambda>ch. length (sends ch)"
  have "map ?f (ins[i := (ins ! i)\<lparr>sends := rest\<rparr>]) = (map ?f ins)[i := length rest]"
    by (simp add: map_update)
  moreover have "sum_list ((map ?f ins)[i := length rest]) =
      sum_list (map ?f ins) + length rest - map ?f ins ! i"
    using assms(1) by (simp add: sum_list_update)
  moreover have "map ?f ins ! i = Suc (length rest)" using assms by simp
  moreover have "map ?f ins ! i \<le> sum_list (map ?f ins)"
    using assms(1) by (intro elem_le_sum_list) simp
  ultimately show ?thesis by simp
qed

lemma receive_push_pending:
  assumes "i < length (ms_in st)"
  shows "pending (push_received i (fst (receive i st)) (snd (receive i st))) \<le> pending st"
proof (cases "sends (ms_in st ! i)")
  case Nil
  then show ?thesis by (simp add: receive_def push_received_def pending_def)
next
  case (Cons pkt rest)
  from sum_sends_update [OF assms Cons]
  show ?thesis
    by (cases pkt) (simp_all add: receive_def push_received_def pending_def Cons heap_Push_length)
qed


lemma close_on_fields [simp]:
  "ms_in (close_on e pc st) = ms_in st"
  "ms_h (close_on e pc st) = ms_h st"
  "ms_out (close_on e pc st) = ms_out st"
  "ms_now (close_on e pc st) = ms_now st"
  "ms_count (close_on e pc st) = ms_count st"
  by (simp_all add: close_on_def split: option.splits)

lemma close_on_pc:
  "ms_pc (close_on e pc st) = (if e = None then pc else Returned)"
  by (simp add: close_on_def split: option.splits)

lemma close_on_err:
  "ms_err (close_on e pc st) = (if e = None then ms_err st else e)"
  by (simp add: close_on_def split: option.splits)

lemma pending_close_on [simp]: "pending (close_on e pc st) = pending st"
  by (simp add: pending_def)

lemma push_received_fields [simp]:
  "ms_in (push_received i pkt st) = ms_in st"
  "ms_out (push_received i pkt st) = ms_out st"
  "ms_now (push_received i pkt st) = ms_now st"
  "ms_pc (push_received i pkt st) = ms_pc st"
  "ms_err (push_received i pkt st) = ms_err st"
  "ms_count (push_received i pkt st) = ms_count st"
  by (simp_all add: push_received_def split: option.splits)

lemma receive_fields [simp]:
  "ms_h (snd (receive i st)) = ms_h st"
  "ms_out (snd (receive i st)) = ms_out st"
  "ms_pc (snd (receive i st)) = ms_pc st"
  "ms_err (snd (receive i st)) = ms_err st"
  "ms_count (snd (receive i st)) = ms_count st"
  "length (ms_in (snd (receive i st))) = length (ms_in st)"
  by (simp_all add: receive_def split: list.splits)

lemma prime_step_eq:
  "prime_step i st =
     close_on (Err_at (ms_in st ! i) (ms_now st)) (Priming (i + 1))
       (push_received i (fst (receive i st)) (snd (receive i st)))"
  by (simp add: prime_step_def Let_def split_beta)

lemma loop_step_eq:
  assumes "heap_Pop old (ms_h st) = Some (h', p)" and "ip_i p < length (ms_in st)"
  shows "loop_step old st =
     (let st1 = st\<lparr>ms_h := h', ms_count := ms_count st + 1\<rparr>;
          st3 = push_received (ip_i p) (fst (receive (ip_i p) st1)) (snd (receive (ip_i p) st1));
          st4 = st3\<lparr>ms_out := ms_out st3 @ [ip_Packet p]\<rparr>
      in close_on (Err_at (ms_in st4 ! ip_i p) (ms_now st4)) Looping st4)"
  using assms by (simp add: loop_step_def Let_def split_beta)

lemma prime_step_decreases:
  assumes "i < length (ms_in st)" and "ms_pc st = Priming i"
  shows "steps_left (prime_step i st) < steps_left st"
proof -
  let ?st2 = "push_received i (fst (receive i st)) (snd (receive i st))"
  have le: "pending ?st2 \<le> pending st" using assms(1) by (rule receive_push_pending)
  have in_len: "length (ms_in ?st2) = length (ms_in st)" by simp
  show ?thesis
  proof (cases "Err_at (ms_in st ! i) (ms_now st)")
    case None
    then have "steps_left (prime_step i st) = (length (ms_in st) - (i + 1)) + 2 + pending ?st2"
      by (simp add: prime_step_eq close_on_pc steps_left_def)
    with le assms show ?thesis by (simp add: steps_left_def)
  next
    case (Some e)
    then have "steps_left (prime_step i st) = 0"
      by (simp add: prime_step_eq close_on_pc steps_left_def)
    with assms show ?thesis by (simp add: steps_left_def)
  qed
qed

lemma loop_step_decreases:
  assumes "ms_pc st = Looping" and "packetHeap_Len (ms_h st) > 0"
  shows "steps_left (loop_step old st) < steps_left st"
proof -
  from assms(2) have ne: "ms_h st \<noteq> []" by (auto simp: packetHeap_Len_def)
  from heap_Pop_Some [OF ne, of old] obtain h' where
    pop: "heap_Pop old (ms_h st) = Some (h', ms_h st ! 0)" and
    len: "length (ms_h st) = Suc (length h')" by blast
  let ?p = "ms_h st ! 0"
  show ?thesis
  proof (cases "ip_i ?p < length (ms_in st)")
    case False
    with pop assms(1) show ?thesis by (simp add: loop_step_def steps_left_def)
  next
    case True
    let ?st1 = "st\<lparr>ms_h := h', ms_count := ms_count st + 1\<rparr>"
    let ?st3 = "push_received (ip_i ?p) (fst (receive (ip_i ?p) ?st1)) (snd (receive (ip_i ?p) ?st1))"
    from True have "pending ?st3 \<le> pending ?st1" by (intro receive_push_pending) simp
    moreover have "pending ?st1 < pending st" using len by (simp add: pending_def)
    moreover have "pending (?st3\<lparr>ms_out := ms_out ?st3 @ [ip_Packet ?p]\<rparr>) = pending ?st3"
      by (simp add: pending_def)
    ultimately have "steps_left (loop_step old st) \<le> pending st"
      by (simp add: loop_step_eq [OF pop True] Let_def close_on_pc steps_left_def)
    with assms(1) show ?thesis by (simp add: steps_left_def)
  qed
qed

lemma merge_step_decreases:
  "ms_pc st \<noteq> Returned \<Longrightarrow> ms_pc st \<noteq> Panicked \<Longrightarrow>
   steps_left (merge_step old st) < steps_left st"
proof (cases "ms_pc st")
  case (Priming i)
  show ?thesis
  proof (cases "i < length (ms_in st)")
    case True
    with Priming prime_step_decreases [of i st] show ?thesis by (simp add: merge_step_def)
  next
    case False
    with Priming show ?thesis by (simp add: merge_step_def pending_def steps_left_def)
  qed
next
  case Looping
  show ?thesis
  proof (cases "packetHeap_Len (ms_h st) > 0")
    case True
    with Looping loop_step_decreases [of st old] show ?thesis by (simp add: merge_step_def)
  next
    case False
    with Looping show ?thesis by (simp add: merge_step_def steps_left_def)
  qed
qed simp_all

text \<open>
  The goroutine runs until it has closed \<open>out\<close> (or panicked); it always gets there,
  since every step decreases \<open>steps_left\<close>.
\<close>

function run :: "bool \<Rightarrow> merge_state \<Rightarrow> merge_state" where
  "run old st =
     (if ms_pc st = Returned \<or> ms_pc st = Panicked then st
      else run old (merge_step old st))"
  by pat_completeness auto
termination
  by (relation "measure (\<lambda>(old, st). steps_left st)") (auto simp: merge_step_decreases)

declare run.simps [simp del]

text \<open>
  \<open>func MergePacketChans(in []PacketChan) PacketChan\<close> returns \<open>out\<close> at once and leaves
  the goroutine running. The model gives the state in which the goroutine ends:
  \<open>ms_out\<close> is the stream a consumer of \<open>out\<close> receives, \<open>ms_pc = Returned\<close> says that
  \<open>out\<close> was closed, and \<open>ms_err\<close> is what \<open>out.Err()\<close> returns from then on.
\<close>

definition MergePacketChans :: "bool \<Rightarrow> Input list \<Rightarrow> merge_state" where
  "MergePacketChans old ins = run old (merge_init ins)"

text \<open>Test data: a packet captured at time \<open>t\<close>, and an input that delivers packets
  with the timestamps \<open>ts\<close> and is closed with \<open>e\<close> at tick \<open>k\<close>.\<close>

definition packet_at :: "int \<Rightarrow> Packet" where
  "packet_at t = \<lparr>Timestamp = t, Data = []\<rparr>"

definition input_of :: "int list \<Rightarrow> error option \<Rightarrow> nat \<Rightarrow> Input" where
  "input_of ts e k = \<lparr>sends = map (\<lambda>t. Some (packet_at t)) ts, close_err = e, close_tick = k\<rparr>"

subsection \<open>The receive and the push of one iteration\<close>

text \<open>
  Both loops receive from a channel and push what they got; \<open>refill\<close> names this pair
  of statements.
\<close>

definition refill :: "nat \<Rightarrow> merge_state \<Rightarrow> merge_state" where
  "refill i st = push_received i (fst (receive i st)) (snd (receive i st))"

lemma refill_fields [simp]:
  "ms_out (refill i st) = ms_out st"
  "ms_pc (refill i st) = ms_pc st"
  "ms_err (refill i st) = ms_err st"
  "ms_count (refill i st) = ms_count st"
  "length (ms_in (refill i st)) = length (ms_in st)"
  by (simp_all add: refill_def)

lemma refill_closed:
  "sends (ms_in st ! i) = [] \<Longrightarrow>
   ms_in (refill i st) = ms_in st \<and> ms_h (refill i st) = ms_h st"
  by (simp add: refill_def receive_def push_received_def)

lemma refill_nil:
  "sends (ms_in st ! i) = None # rest \<Longrightarrow>
   ms_in (refill i st) = (ms_in st)[i := (ms_in st ! i)\<lparr>sends := rest\<rparr>] \<and>
   ms_h (refill i st) = ms_h st"
  by (simp add: refill_def receive_def push_received_def)

lemma refill_got:
  "sends (ms_in st ! i) = Some q # rest \<Longrightarrow>
   ms_in (refill i st) = (ms_in st)[i := (ms_in st ! i)\<lparr>sends := rest\<rparr>] \<and>
   ms_h (refill i st) = heap_Push (ms_h st) \<lparr>ip_Packet = q, ip_i = i\<rparr>"
  by (simp add: refill_def receive_def push_received_def)

lemma prime_step_refill:
  "prime_step i st = close_on (Err_at (ms_in st ! i) (ms_now st)) (Priming (i + 1)) (refill i st)"
  by (simp add: prime_step_eq refill_def)

lemma loop_step_refill:
  assumes "heap_Pop old (ms_h st) = Some (h', p)" and "ip_i p < length (ms_in st)"
  shows "loop_step old st =
     (let st3 = refill (ip_i p) (st\<lparr>ms_h := h', ms_count := ms_count st + 1\<rparr>);
          st4 = st3\<lparr>ms_out := ms_out st @ [ip_Packet p]\<rparr>
      in close_on (Err_at (ms_in st4 ! ip_i p) (ms_now st4)) Looping st4)"
  using assms by (simp add: loop_step_eq refill_def Let_def)

lemma heap_Push_set: "set (heap_Push h x) = insert x (set h)"
proof -
  have "set_mset (mset (heap_Push h x)) = set_mset (add_mset x (mset h))"
    by (simp only: heap_Push_mset)
  then show ?thesis by simp
qed

lemma heap_Push_sources:
  "mset (map ip_i (heap_Push h x)) = add_mset (ip_i x) (mset (map ip_i h))"
  by (simp add: heap_Push_mset)

lemma heap_Push_distinct:
  "distinct (map ip_i h) \<Longrightarrow> ip_i x \<notin> ip_i ` set h \<Longrightarrow> distinct (map ip_i (heap_Push h x))"
proof -
  assume a: "distinct (map ip_i h)" "ip_i x \<notin> ip_i ` set h"
  have "mset (map ip_i (heap_Push h x)) = mset (ip_i x # map ip_i h)"
    by (simp add: heap_Push_mset)
  then have "distinct (map ip_i (heap_Push h x)) = distinct (ip_i x # map ip_i h)"
    by (rule mset_eq_imp_distinct_iff)
  with a show ?thesis by simp
qed

lemma popped_sources:
  assumes "mset h = add_mset p (mset h')" and "distinct (map ip_i h)"
  shows "distinct (map ip_i h') \<and> ip_i p \<notin> ip_i ` set h' \<and> set h = insert p (set h')"
proof -
  have "mset (map ip_i h) = image_mset ip_i (mset h)" by simp
  also have "\<dots> = mset (ip_i p # map ip_i h')" by (simp only: assms(1)) simp
  finally have "distinct (map ip_i h) = distinct (ip_i p # map ip_i h')"
    by (rule mset_eq_imp_distinct_iff)
  with assms(2) have "distinct (map ip_i h')" "ip_i p \<notin> ip_i ` set h'" by simp_all
  moreover have "set_mset (mset h) = set_mset (add_mset p (mset h'))" by (simp only: assms(1))
  then have "set h = insert p (set h')" by simp
  ultimately show ?thesis by blast
qed

subsection \<open>The size of the heap\<close>

text \<open>
  The bound on the heap: at most \<open>N\<close> entries, no two of them from the same input
  channel, each from one of the \<open>N\<close> channels.
\<close>

definition one_per_source :: "nat \<Rightarrow> packetHeap \<Rightarrow> bool" where
  "one_per_source N h =
     (length h \<le> N \<and> distinct (map ip_i h) \<and> set (map ip_i h) \<subseteq> {..<N})"

text \<open>
  The invariant behind it: while the priming loop is at channel \<open>k\<close>, the heap holds
  entries of channels below \<open>k\<close> only.
\<close>

definition sources_below :: "nat \<Rightarrow> packetHeap \<Rightarrow> bool" where
  "sources_below k h = (distinct (map ip_i h) \<and> (\<forall>x\<in>set h. ip_i x < k))"

definition heap_bound :: "merge_state \<Rightarrow> bool" where
  "heap_bound st =
     (case ms_pc st of
        Priming k \<Rightarrow> sources_below (min k (length (ms_in st))) (ms_h st)
      | _ \<Rightarrow> sources_below (length (ms_in st)) (ms_h st))"

lemma sources_below_mono: "sources_below k h \<Longrightarrow> k \<le> k' \<Longrightarrow> sources_below k' h"
  by (auto simp: sources_below_def)

lemma sources_below_one_per_source:
  assumes "sources_below k h" and "k \<le> N"
  shows "one_per_source N h"
proof -
  from assms have d: "distinct (map ip_i h)" and s: "set (map ip_i h) \<subseteq> {..<N}"
    by (auto simp: sources_below_def)
  from d have "card (set (map ip_i h)) = length (map ip_i h)" by (rule distinct_card)
  then have "length h = card (set (map ip_i h))" by simp
  also from s have "\<dots> \<le> card {..<N}" by (intro card_mono) simp_all
  finally have "length h \<le> N" by simp
  with d s show ?thesis by (simp add: one_per_source_def)
qed

lemma refill_sources_below:
  assumes "sources_below k (ms_h st)" and "i \<notin> ip_i ` set (ms_h st)" and "i < k'" and "k \<le> k'"
  shows "sources_below k' (ms_h (refill i st))"
proof (cases "sends (ms_in st ! i)")
  case Nil
  with assms show ?thesis by (simp add: refill_closed sources_below_mono)
next
  case (Cons pkt rest)
  show ?thesis
  proof (cases pkt)
    case None
    with Cons assms show ?thesis by (simp add: refill_nil sources_below_mono)
  next
    case (Some q)
    with Cons have h: "ms_h (refill i st) = heap_Push (ms_h st) \<lparr>ip_Packet = q, ip_i = i\<rparr>"
      by (simp add: refill_got)
    from assms(1,2) have "distinct (map ip_i (heap_Push (ms_h st) \<lparr>ip_Packet = q, ip_i = i\<rparr>))"
      by (intro heap_Push_distinct) (simp_all add: sources_below_def)
    with assms show ?thesis
      by (auto simp: h sources_below_def heap_Push_set)
  qed
qed

lemma popped_sources_below:
  assumes "heap_Pop old h = Some (h', p)" and "sources_below k h"
  shows "sources_below k h' \<and> ip_i p < k \<and> ip_i p \<notin> ip_i ` set h'"
proof -
  from assms(1) have ne: "h \<noteq> []" by (auto simp: heap_Pop_def packetHeap_Len_def)
  from heap_Pop_Some [OF ne, of old] assms(1)
  have m: "mset h = add_mset p (mset h')" by auto
  from assms(2) have "distinct (map ip_i h)" by (simp add: sources_below_def)
  with m have "distinct (map ip_i h') \<and> ip_i p \<notin> ip_i ` set h' \<and> set h = insert p (set h')"
    by (rule popped_sources)
  with assms(2) show ?thesis by (auto simp: sources_below_def)
qed

lemma merge_step_in_length: "length (ms_in (merge_step old st)) = length (ms_in st)"
proof (cases "ms_pc st")
  case (Priming k)
  then show ?thesis by (simp add: merge_step_def prime_step_refill)
next
  case Looping
  show ?thesis
  proof (cases "heap_Pop old (ms_h st)")
    case None
    with Looping show ?thesis by (simp add: merge_step_def loop_step_def)
  next
    case (Some r)
    obtain h' p where r: "r = (h', p)" by (cases r)
    show ?thesis
    proof (cases "ip_i p < length (ms_in st)")
      case True
      with Looping Some r show ?thesis
        by (simp add: merge_step_def loop_step_refill Let_def)
    next
      case False
      with Looping Some r show ?thesis by (simp add: merge_step_def loop_step_def)
    qed
  qed
qed (simp_all add: merge_step_def)

lemma merge_step_heap_bound:
  assumes "heap_bound st"
  shows "heap_bound (merge_step old st)"
proof (cases "ms_pc st")
  case (Priming k)
  let ?N = "length (ms_in st)"
  from assms Priming have sb: "sources_below (min k ?N) (ms_h st)" by (simp add: heap_bound_def)
  show ?thesis
  proof (cases "k < ?N")
    case False
    then have "min k ?N = ?N" by simp
    with sb have "sources_below ?N (ms_h st)" by simp
    with False Priming show ?thesis by (simp add: merge_step_def heap_bound_def)
  next
    case True
    with sb have "sources_below k (ms_h st)" by simp
    moreover from this have "k \<notin> ip_i ` set (ms_h st)" by (auto simp: sources_below_def)
    ultimately have new: "sources_below (k + 1) (ms_h (refill k st))"
      by (rule refill_sources_below) simp_all
    from True have "k + 1 \<le> ?N" by simp
    with new have "sources_below ?N (ms_h (refill k st))" by (rule sources_below_mono)
    with new True Priming show ?thesis
      by (simp add: merge_step_def prime_step_refill heap_bound_def close_on_pc min_def)
  qed
next
  case Looping
  let ?N = "length (ms_in st)"
  from assms Looping have sb: "sources_below ?N (ms_h st)" by (simp add: heap_bound_def)
  show ?thesis
  proof (cases "packetHeap_Len (ms_h st) > 0")
    case False
    with Looping sb show ?thesis by (simp add: merge_step_def heap_bound_def)
  next
    case True
    then have ne: "ms_h st \<noteq> []" by (auto simp: packetHeap_Len_def)
    from heap_Pop_Some [OF ne, of old] obtain h' where
      pop: "heap_Pop old (ms_h st) = Some (h', ms_h st ! 0)" by blast
    let ?p = "ms_h st ! 0"
    from popped_sources_below [OF pop sb]
    have h': "sources_below ?N h'" and p: "ip_i ?p < ?N" and fresh: "ip_i ?p \<notin> ip_i ` set h'"
      by simp_all
    let ?st1 = "st\<lparr>ms_h := h', ms_count := ms_count st + 1\<rparr>"
    have "sources_below ?N (ms_h (refill (ip_i ?p) ?st1))"
      using h' fresh p by (intro refill_sources_below [where k = ?N]) simp_all
    with True Looping p show ?thesis
      by (simp add: merge_step_def loop_step_refill [OF pop p] Let_def heap_bound_def
          close_on_pc)
  qed
next
  case Returned
  with assms show ?thesis by (simp add: merge_step_def)
next
  case Panicked
  with assms show ?thesis by (simp add: merge_step_def)
qed

lemma heap_bound_init: "heap_bound (merge_init ins)"
  by (simp add: heap_bound_def merge_init_def sources_below_def)

lemma heap_bound_reachable:
  "heap_bound ((merge_step old ^^ n) (merge_init ins)) \<and>
   length (ms_in ((merge_step old ^^ n) (merge_init ins))) = length ins"
proof (induction n)
  case 0
  show ?case by (simp add: heap_bound_init) (simp add: merge_init_def)
next
  case (Suc n)
  then show ?case by (simp add: merge_step_heap_bound merge_step_in_length)
qed

lemma heap_bound_one_per_source:
  assumes "heap_bound st"
  shows "one_per_source (length (ms_in st)) (ms_h st)"
proof (cases "ms_pc st")
  case (Priming k)
  with assms have "sources_below (min k (length (ms_in st))) (ms_h st)"
    by (simp add: heap_bound_def)
  then show ?thesis by (rule sources_below_one_per_source) simp
qed (use assms in \<open>auto simp: heap_bound_def intro: sources_below_one_per_source\<close>)

lemma run_heap_bound:
  "heap_bound st \<Longrightarrow> heap_bound (run old st) \<and> length (ms_in (run old st)) = length (ms_in st)"
proof (induction old st rule: run.induct)
  case (1 old st)
  show ?case
  proof (cases "ms_pc st = Returned \<or> ms_pc st = Panicked")
    case True
    with "1.prems" show ?thesis by (subst (1 2) run.simps) simp
  next
    case False
    with "1.IH" "1.prems" show ?thesis
      by (subst (1 2) run.simps) (simp add: merge_step_heap_bound merge_step_in_length)
  qed
qed

text \<open>
  Claim C8. In every state the merge goroutine reaches from its start, after any number
  \<open>n\<close> of iterations of the priming loop and of the main loop, the heap holds at most
  \<open>N = len(in)\<close> entries and at most one entry of each input channel; the same holds
  inside a main loop iteration, for the heap that \<open>heap.Pop\<close> leaves, and in the state
  in which the goroutine ends.
\<close>

theorem heap_one_per_source:
  "one_per_source (length ins) (ms_h ((merge_step old ^^ n) (merge_init ins))) \<and>
   (case heap_Pop old (ms_h ((merge_step old ^^ n) (merge_init ins))) of
      None \<Rightarrow> True
    | Some (h', p) \<Rightarrow> one_per_source (length ins) h') \<and>
   one_per_source (length ins) (ms_h (MergePacketChans old ins))"
proof -
  let ?st = "(merge_step old ^^ n) (merge_init ins)"
  from heap_bound_reachable [of n old ins]
  have hb: "heap_bound ?st" and len: "length (ms_in ?st) = length ins" by simp_all
  from hb have one: "one_per_source (length ins) (ms_h ?st)"
    using heap_bound_one_per_source [of ?st] by (simp add: len)
  have "one_per_source (length ins) h'" if pop: "heap_Pop old (ms_h ?st) = Some (h', p)" for h' p
  proof -
    from one have "sources_below (length ins) (ms_h ?st)"
      by (auto simp: one_per_source_def sources_below_def)
    with pop have "sources_below (length ins) h'" using popped_sources_below by blast
    then show ?thesis by (rule sources_below_one_per_source) simp
  qed
  then have mid: "case heap_Pop old (ms_h ?st) of None \<Rightarrow> True
      | Some (h', p) \<Rightarrow> one_per_source (length ins) h'"
    by (auto split: option.splits)
  have "heap_bound (MergePacketChans old ins) \<and>
      length (ms_in (MergePacketChans old ins)) = length (ms_in (merge_init ins))"
    unfolding MergePacketChans_def by (rule run_heap_bound) (rule heap_bound_init)
  then have "one_per_source (length ins) (ms_h (MergePacketChans old ins))"
    using heap_bound_one_per_source [of "MergePacketChans old ins"]
    by (simp add: merge_init_def)
  with one mid show ?thesis by blast
qed

subsection \<open>Ordered inputs give an ordered output\<close>

text \<open>
  An input whose producer sends records only (no \<open>nil\<close> pointer) in non-decreasing
  order of timestamp.
\<close>

definition records_ascending :: "Input \<Rightarrow> bool" where
  "records_ascending ch =
     (None \<notin> set (sends ch) \<and> sorted (map (\<lambda>q. Timestamp (the q)) (sends ch)))"

text \<open>
  The invariant of the two loops, in parts: every input is still ordered and closes with
  \<open>nil\<close>; no record still to come from a channel is earlier than the channel's entry
  in the heap; every channel that has records left has an entry in the heap; and the
  records in the heap and those still to come (\<open>waiting\<close>) are, with the output so far,
  all there is.
\<close>

definition inputs_ok :: "Input list \<Rightarrow> bool" where
  "inputs_ok ins = (\<forall>ch\<in>set ins. records_ascending ch \<and> close_err ch = None)"

definition heads_least :: "Input list \<Rightarrow> packetHeap \<Rightarrow> bool" where
  "heads_least ins h =
     (\<forall>x\<in>set h. \<forall>q\<in>set (sends (ins ! ip_i x)). key x \<le> Timestamp (the q))"

definition active_in_heap :: "nat \<Rightarrow> Input list \<Rightarrow> packetHeap \<Rightarrow> bool" where
  "active_in_heap k ins h = (\<forall>j<k. sends (ins ! j) \<noteq> [] \<longrightarrow> j \<in> ip_i ` set h)"

definition waiting :: "Input list \<Rightarrow> packetHeap \<Rightarrow> Packet multiset" where
  "waiting ins h =
     image_mset ip_Packet (mset h) + sum_list (map (\<lambda>ch. mset (map the (sends ch))) ins)"

lemma sum_list_mset_update:
  fixes f :: "'a \<Rightarrow> 'b multiset"
  assumes "i < length xs" and "f (xs ! i) = add_mset q (f y)"
  shows "sum_list (map f (xs[i := y])) + {#q#} = sum_list (map f xs)"
  using assms
proof (induction xs arbitrary: i)
  case Nil
  then show ?case by simp
next
  case (Cons x xs)
  show ?case
  proof (cases i)
    case 0
    with Cons.prems show ?thesis by simp
  next
    case (Suc j)
    with Cons.prems have "sum_list (map f (xs[j := y])) + {#q#} = sum_list (map f xs)"
      by (intro Cons.IH) simp_all
    with Suc show ?thesis by (simp add: add.assoc)
  qed
qed

lemma refill_cases:
  assumes "records_ascending (ms_in st ! i)"
  obtains
    (closed) "sends (ms_in st ! i) = []" "ms_in (refill i st) = ms_in st"
      "ms_h (refill i st) = ms_h st"
  | (got) q rest where "sends (ms_in st ! i) = Some q # rest"
      "ms_in (refill i st) = (ms_in st)[i := (ms_in st ! i)\<lparr>sends := rest\<rparr>]"
      "ms_h (refill i st) = heap_Push (ms_h st) \<lparr>ip_Packet = q, ip_i = i\<rparr>"
      "None \<notin> set rest" "sorted (map (\<lambda>q. Timestamp (the q)) rest)"
      "\<forall>r\<in>set rest. Timestamp q \<le> Timestamp (the r)"
proof (cases "sends (ms_in st ! i)")
  case Nil
  then show ?thesis using closed by (simp add: refill_closed)
next
  case (Cons pkt rest)
  with assms have "None \<noteq> pkt" by (simp add: records_ascending_def)
  then obtain q where q: "pkt = Some q" by (cases pkt) simp_all
  from assms Cons q have "None \<notin> set rest" "sorted (map (\<lambda>q. Timestamp (the q)) rest)"
    "\<forall>r\<in>set rest. Timestamp q \<le> Timestamp (the r)"
    by (auto simp: records_ascending_def)
  with Cons q show ?thesis using got [of q rest] by (simp add: refill_got)
qed

lemma inputs_ok_nth: "inputs_ok ins \<Longrightarrow> i < length ins \<Longrightarrow> records_ascending (ins ! i)"
  by (simp add: inputs_ok_def)

lemma inputs_ok_update:
  assumes "inputs_ok ins" and "records_ascending c'" and "close_err c' = None"
  shows "inputs_ok (ins[i := c'])"
  unfolding inputs_ok_def
proof
  fix ch assume "ch \<in> set (ins[i := c'])"
  then have "ch = c' \<or> ch \<in> set ins" using set_update_subset_insert [of ins i c'] by auto
  with assms show "records_ascending ch \<and> close_err ch = None" by (auto simp: inputs_ok_def)
qed

lemma refill_inputs_ok:
  assumes "inputs_ok (ms_in st)" and "i < length (ms_in st)"
  shows "inputs_ok (ms_in (refill i st))"
proof -
  from assms have ra: "records_ascending (ms_in st ! i)" by (rule inputs_ok_nth)
  from assms have ce: "close_err (ms_in st ! i) = None" by (simp add: inputs_ok_def)
  from ra show ?thesis
  proof (cases rule: refill_cases)
    case closed
    with assms show ?thesis by simp
  next
    case (got q rest)
    have "records_ascending ((ms_in st ! i)\<lparr>sends := rest\<rparr>)"
      using got(4,5) by (simp add: records_ascending_def)
    with assms(1) have "inputs_ok ((ms_in st)[i := (ms_in st ! i)\<lparr>sends := rest\<rparr>])"
      using ce by (intro inputs_ok_update) simp_all
    with got show ?thesis by simp
  qed
qed

lemma refill_heap_inv:
  assumes "heap_inv (ms_h st)" and "records_ascending (ms_in st ! i)"
  shows "heap_inv (ms_h (refill i st))"
  using assms(2)
proof (cases rule: refill_cases)
  case closed
  with assms show ?thesis by simp
next
  case (got q rest)
  with assms show ?thesis by (simp add: heap_Push_inv)
qed

lemma refill_heads_least:
  assumes "heads_least (ms_in st) (ms_h st)" and "records_ascending (ms_in st ! i)"
    and "i < length (ms_in st)" and "i \<notin> ip_i ` set (ms_h st)"
  shows "heads_least (ms_in (refill i st)) (ms_h (refill i st))"
  using assms(2)
proof (cases rule: refill_cases)
  case closed
  with assms show ?thesis by simp
next
  case (got q rest)
  let ?ins = "(ms_in st)[i := (ms_in st ! i)\<lparr>sends := rest\<rparr>]"
  let ?new = "\<lparr>ip_Packet = q, ip_i = i\<rparr>"
  have "key x \<le> Timestamp (the r)"
    if x: "x \<in> insert ?new (set (ms_h st))" and r: "r \<in> set (sends (?ins ! ip_i x))" for x r
  proof (cases "x = ?new")
    case True
    with r assms(3) have "r \<in> set rest" by simp
    with got(6) True show ?thesis by simp
  next
    case False
    with x have xin: "x \<in> set (ms_h st)" by simp
    with assms(4) have "ip_i x \<noteq> i" by auto
    with r have "r \<in> set (sends (ms_in st ! ip_i x))" by simp
    with assms(1) xin show ?thesis by (simp add: heads_least_def)
  qed
  then show ?thesis by (simp add: got heads_least_def heap_Push_set)
qed

lemma refill_active:
  assumes "\<forall>j<k. j \<noteq> i \<longrightarrow> sends (ms_in st ! j) \<noteq> [] \<longrightarrow> j \<in> ip_i ` set (ms_h st)"
    and "records_ascending (ms_in st ! i)" and "i < length (ms_in st)"
  shows "active_in_heap k (ms_in (refill i st)) (ms_h (refill i st))"
  using assms(2)
proof (cases rule: refill_cases)
  case closed
  have "j \<in> ip_i ` set (ms_h st)" if "j < k" "sends (ms_in st ! j) \<noteq> []" for j
  proof -
    from that closed(1) have "j \<noteq> i" by auto
    with that assms(1) show ?thesis by blast
  qed
  with closed show ?thesis by (simp add: active_in_heap_def)
next
  case (got q rest)
  let ?ins = "(ms_in st)[i := (ms_in st ! i)\<lparr>sends := rest\<rparr>]"
  let ?new = "\<lparr>ip_Packet = q, ip_i = i\<rparr>"
  have "j \<in> ip_i ` insert ?new (set (ms_h st))" if "j < k" "sends (?ins ! j) \<noteq> []" for j
  proof (cases "j = i")
    case True
    then show ?thesis by simp
  next
    case False
    with that have "sends (ms_in st ! j) \<noteq> []" by simp
    with that False assms(1) show ?thesis by blast
  qed
  then show ?thesis by (simp add: got active_in_heap_def heap_Push_set)
qed

lemma refill_lower_bound:
  assumes "\<forall>x\<in>set (ms_h st). b \<le> key x"
    and "\<forall>q\<in>set (sends (ms_in st ! i)). b \<le> Timestamp (the q)"
    and "records_ascending (ms_in st ! i)"
  shows "\<forall>x\<in>set (ms_h (refill i st)). b \<le> key x"
  using assms(3)
proof (cases rule: refill_cases)
  case closed
  with assms show ?thesis by simp
next
  case (got q rest)
  with assms(2) have "b \<le> Timestamp q" by simp
  with assms(1) show ?thesis by (simp add: got heap_Push_set)
qed

lemma refill_waiting:
  assumes "records_ascending (ms_in st ! i)" and "i < length (ms_in st)"
  shows "waiting (ms_in (refill i st)) (ms_h (refill i st)) = waiting (ms_in st) (ms_h st)"
  using assms(1)
proof (cases rule: refill_cases)
  case closed
  then show ?thesis by simp
next
  case (got q rest)
  let ?f = "\<lambda>ch. mset (map the (sends ch))"
  have "?f (ms_in st ! i) = add_mset q (?f ((ms_in st ! i)\<lparr>sends := rest\<rparr>))"
    by (simp add: got(1))
  with assms(2)
  have "sum_list (map ?f ((ms_in st)[i := (ms_in st ! i)\<lparr>sends := rest\<rparr>])) + {#q#} =
      sum_list (map ?f (ms_in st))"
    by (rule sum_list_mset_update)
  then show ?thesis by (simp add: got waiting_def heap_Push_mset)
qed

text \<open>
  \<open>primed_inv k\<close>: the state with the channels below \<open>k\<close> primed. The output so far is
  ordered and nothing in it is later than an entry of the heap; it is still empty while
  channels remain to be primed.
\<close>

definition primed_inv :: "nat \<Rightarrow> merge_state \<Rightarrow> bool" where
  "primed_inv k st =
     (k \<le> length (ms_in st) \<and> heap_inv (ms_h st) \<and> inputs_ok (ms_in st) \<and>
      sources_below k (ms_h st) \<and> heads_least (ms_in st) (ms_h st) \<and>
      active_in_heap k (ms_in st) (ms_h st) \<and>
      sorted (map Timestamp (ms_out st)) \<and>
      (\<forall>t\<in>set (ms_out st). \<forall>x\<in>set (ms_h st). Timestamp t \<le> key x) \<and>
      (k < length (ms_in st) \<longrightarrow> ms_out st = []) \<and>
      ms_err st = None)"

definition merge_inv :: "merge_state \<Rightarrow> bool" where
  "merge_inv st =
     (case ms_pc st of
        Priming k \<Rightarrow> primed_inv k st
      | Looping \<Rightarrow> primed_inv (length (ms_in st)) st
      | Returned \<Rightarrow>
          sorted (map Timestamp (ms_out st)) \<and> ms_err st = None \<and>
          waiting (ms_in st) (ms_h st) = {#}
      | Panicked \<Rightarrow> False)"

definition content :: "merge_state \<Rightarrow> Packet multiset" where
  "content st = mset (ms_out st) + waiting (ms_in st) (ms_h st)"

lemma inputs_ok_Err_at: "inputs_ok ins \<Longrightarrow> i < length ins \<Longrightarrow> Err_at (ins ! i) t = None"
  by (simp add: inputs_ok_def Err_at_def)

lemma primed_inv_pc [simp]: "primed_inv k (st\<lparr>ms_pc := pc\<rparr>) = primed_inv k st"
  by (simp add: primed_inv_def)

lemma content_pc [simp]: "content (st\<lparr>ms_pc := pc\<rparr>) = content st"
  by (simp add: content_def)

lemma prime_step_inv:
  assumes inv: "primed_inv k st" and k: "k < length (ms_in st)"
  shows "primed_inv (k + 1) (prime_step k st) \<and>
         ms_pc (prime_step k st) = Priming (k + 1) \<and>
         content (prime_step k st) = content st"
proof -
  let ?st' = "refill k st"
  from inv have ok: "inputs_ok (ms_in st)" and hi: "heap_inv (ms_h st)"
    and sb: "sources_below k (ms_h st)" and hl: "heads_least (ms_in st) (ms_h st)"
    and ac: "active_in_heap k (ms_in st) (ms_h st)" and out: "ms_out st = []"
    and err: "ms_err st = None"
    using k by (simp_all add: primed_inv_def)
  from ok k have ra: "records_ascending (ms_in st ! k)" by (rule inputs_ok_nth)
  from sb have fresh: "k \<notin> ip_i ` set (ms_h st)" by (auto simp: sources_below_def)
  have e: "Err_at (ms_in st ! k) (ms_now st) = None" using ok k by (rule inputs_ok_Err_at)
  then have step: "prime_step k st = ?st'\<lparr>ms_pc := Priming (k + 1)\<rparr>"
    by (simp add: prime_step_refill close_on_def)
  have 1: "heap_inv (ms_h ?st')" using hi ra by (rule refill_heap_inv)
  have 2: "inputs_ok (ms_in ?st')" using ok k by (rule refill_inputs_ok)
  have 3: "sources_below (k + 1) (ms_h ?st')"
    using sb fresh by (rule refill_sources_below) simp_all
  have 4: "heads_least (ms_in ?st') (ms_h ?st')" using hl ra k fresh by (rule refill_heads_least)
  have "\<forall>j<k + 1. j \<noteq> k \<longrightarrow> sends (ms_in st ! j) \<noteq> [] \<longrightarrow> j \<in> ip_i ` set (ms_h st)"
    using ac by (auto simp: active_in_heap_def)
  then have 5: "active_in_heap (k + 1) (ms_in ?st') (ms_h ?st')"
    using ra k by (rule refill_active)
  have 6: "waiting (ms_in ?st') (ms_h ?st') = waiting (ms_in st) (ms_h st)"
    using ra k by (rule refill_waiting)
  from 1 2 3 4 5 k out err have "primed_inv (k + 1) (prime_step k st)"
    by (simp add: step primed_inv_def)
  moreover from 6 have "content (prime_step k st) = content st"
    by (simp add: step content_def)
  ultimately show ?thesis by (simp add: step)
qed

lemma loop_step_inv:
  assumes inv: "primed_inv (length (ms_in st)) st" and ne: "ms_h st \<noteq> []"
  shows "primed_inv (length (ms_in st)) (loop_step old st) \<and>
         ms_pc (loop_step old st) = Looping \<and>
         length (ms_in (loop_step old st)) = length (ms_in st) \<and>
         content (loop_step old st) = content st"
proof -
  let ?N = "length (ms_in st)"
  let ?p = "ms_h st ! 0"
  from inv have ok: "inputs_ok (ms_in st)" and hi: "heap_inv (ms_h st)"
    and sb: "sources_below ?N (ms_h st)" and hl: "heads_least (ms_in st) (ms_h st)"
    and ac: "active_in_heap ?N (ms_in st) (ms_h st)"
    and so: "sorted (map Timestamp (ms_out st))"
    and ob: "\<forall>t\<in>set (ms_out st). \<forall>x\<in>set (ms_h st). Timestamp t \<le> key x"
    and err: "ms_err st = None"
    by (simp_all add: primed_inv_def)
  from heap_Pop_Some [OF ne, of old] hi obtain h' where
    pop: "heap_Pop old (ms_h st) = Some (h', ?p)" and
    m: "mset (ms_h st) = add_mset ?p (mset h')" and hi': "heap_inv h'" by blast
  from popped_sources_below [OF pop sb]
  have sb': "sources_below ?N h'" and p: "ip_i ?p < ?N" and fresh: "ip_i ?p \<notin> ip_i ` set h'"
    by simp_all
  from m sb have set_h: "set (ms_h st) = insert ?p (set h')"
    using popped_sources [of "ms_h st" ?p h'] by (simp add: sources_below_def)
  let ?i = "ip_i ?p"
  let ?st1 = "st\<lparr>ms_h := h', ms_count := ms_count st + 1\<rparr>"
  let ?st3 = "refill ?i ?st1"
  let ?st4 = "?st3\<lparr>ms_out := ms_out st @ [ip_Packet ?p]\<rparr>"
  from ok p have ra: "records_ascending (ms_in ?st1 ! ?i)" by (simp add: inputs_ok_nth)
  have 1: "heap_inv (ms_h ?st3)" using ra hi' by (intro refill_heap_inv) simp_all
  have 2: "inputs_ok (ms_in ?st3)" using ok p by (intro refill_inputs_ok) simp_all
  have 3: "sources_below ?N (ms_h ?st3)"
    using sb' fresh p by (intro refill_sources_below [where k = ?N]) simp_all
  have hl': "heads_least (ms_in ?st1) (ms_h ?st1)"
    using hl set_h by (simp add: heads_least_def)
  have 4: "heads_least (ms_in ?st3) (ms_h ?st3)"
    using hl' ra p fresh by (intro refill_heads_least) simp_all
  have "\<forall>j<?N. j \<noteq> ?i \<longrightarrow> sends (ms_in ?st1 ! j) \<noteq> [] \<longrightarrow> j \<in> ip_i ` set (ms_h ?st1)"
    using ac set_h by (auto simp: active_in_heap_def)
  then have 5: "active_in_heap ?N (ms_in ?st3) (ms_h ?st3)"
    using ra p by (intro refill_active) simp_all
  have root: "\<forall>x\<in>set (ms_h st). key ?p \<le> key x"
    using hi by (auto intro: heap_inv_root_least)
  have pin: "?p \<in> set (ms_h st)" using set_h by simp
  have next_ge: "\<forall>q\<in>set (sends (ms_in st ! ?i)). key ?p \<le> Timestamp (the q)"
    using hl pin by (simp add: heads_least_def)
  have out_p: "\<forall>t\<in>set (ms_out st). Timestamp t \<le> key ?p" using ob pin by blast
  have 6: "sorted (map Timestamp (ms_out st @ [ip_Packet ?p]))"
    using so out_p by (simp add: sorted_append)
  have 7: "\<forall>t\<in>set (ms_out st @ [ip_Packet ?p]). \<forall>x\<in>set (ms_h ?st3). Timestamp t \<le> key x"
  proof
    fix t assume t: "t \<in> set (ms_out st @ [ip_Packet ?p])"
    have a: "\<forall>x\<in>set (ms_h ?st1). Timestamp t \<le> key x"
    proof (cases "t \<in> set (ms_out st)")
      case True
      with ob set_h show ?thesis by simp
    next
      case False
      with t have "t = ip_Packet ?p" by simp
      with root set_h show ?thesis by simp
    qed
    have b: "\<forall>q\<in>set (sends (ms_in ?st1 ! ?i)). Timestamp t \<le> Timestamp (the q)"
    proof (cases "t \<in> set (ms_out st)")
      case True
      with out_p next_ge show ?thesis by fastforce
    next
      case False
      with t have "t = ip_Packet ?p" by simp
      with next_ge show ?thesis by simp
    qed
    from a b ra show "\<forall>x\<in>set (ms_h ?st3). Timestamp t \<le> key x"
      by (rule refill_lower_bound)
  qed
  have 8: "waiting (ms_in ?st3) (ms_h ?st3) = waiting (ms_in ?st1) (ms_h ?st1)"
    using ra p by (intro refill_waiting) simp_all
  have w: "waiting (ms_in st) (ms_h st) = add_mset (ip_Packet ?p) (waiting (ms_in ?st1) (ms_h ?st1))"
    by (simp add: waiting_def m)
  have e: "Err_at (ms_in ?st4 ! ?i) (ms_now ?st4) = None"
    using 2 p by (intro inputs_ok_Err_at) simp_all
  have step: "loop_step old st = ?st4\<lparr>ms_pc := Looping\<rparr>"
    using e by (simp add: loop_step_refill [OF pop p] Let_def close_on_def)
  have "primed_inv ?N (loop_step old st)"
    using 1 2 3 4 5 6 7 err by (simp add: step primed_inv_def)
  moreover have "content (loop_step old st) = content st"
    using 8 w by (simp add: step content_def)
  ultimately show ?thesis by (simp add: step)
qed

lemma sum_list_mset_empty:
  fixes f :: "'a \<Rightarrow> 'b multiset"
  shows "\<forall>x\<in>set xs. f x = {#} \<Longrightarrow> sum_list (map f xs) = {#}"
  by (induction xs) simp_all

lemma drained:
  assumes "primed_inv (length (ms_in st)) st" and "ms_h st = []"
  shows "waiting (ms_in st) (ms_h st) = {#}"
proof -
  have "sends ch = []" if "ch \<in> set (ms_in st)" for ch
  proof -
    from that obtain j where j: "j < length (ms_in st)" "ch = ms_in st ! j"
      by (auto simp: in_set_conv_nth)
    with assms show ?thesis by (auto simp: primed_inv_def active_in_heap_def)
  qed
  then have "sum_list (map (\<lambda>ch. mset (map the (sends ch))) (ms_in st)) = {#}"
    by (intro sum_list_mset_empty) simp
  with assms(2) show ?thesis by (simp add: waiting_def)
qed

lemma merge_step_inv:
  assumes "merge_inv st"
  shows "merge_inv (merge_step old st) \<and> content (merge_step old st) = content st"
proof (cases "ms_pc st")
  case (Priming k)
  with assms have inv: "primed_inv k st" by (simp add: merge_inv_def)
  show ?thesis
  proof (cases "k < length (ms_in st)")
    case True
    from prime_step_inv [OF inv True] True Priming show ?thesis
      by (simp add: merge_step_def merge_inv_def)
  next
    case False
    with inv have "k = length (ms_in st)" by (simp add: primed_inv_def)
    with inv False Priming show ?thesis by (simp add: merge_step_def merge_inv_def)
  qed
next
  case Looping
  with assms have inv: "primed_inv (length (ms_in st)) st" by (simp add: merge_inv_def)
  show ?thesis
  proof (cases "packetHeap_Len (ms_h st) > 0")
    case True
    then have "ms_h st \<noteq> []" by (auto simp: packetHeap_Len_def)
    from loop_step_inv [OF inv this, of old] True Looping show ?thesis
      by (simp add: merge_step_def merge_inv_def)
  next
    case False
    then have e: "ms_h st = []" by (simp add: packetHeap_Len_def)
    from inv e have "waiting (ms_in st) (ms_h st) = {#}" by (rule drained)
    with inv False Looping show ?thesis
      by (simp add: merge_step_def merge_inv_def primed_inv_def content_def)
  qed
next
  case Returned
  with assms show ?thesis by (simp add: merge_step_def)
next
  case Panicked
  with assms show ?thesis by (simp add: merge_inv_def)
qed

lemma run_inv:
  "merge_inv st \<Longrightarrow>
   merge_inv (run old st) \<and> content (run old st) = content st \<and> ms_pc (run old st) = Returned"
proof (induction old st rule: run.induct)
  case (1 old st)
  show ?case
  proof (cases "ms_pc st = Returned \<or> ms_pc st = Panicked")
    case True
    with "1.prems" have "ms_pc st = Returned" by (auto simp: merge_inv_def)
    with "1.prems" show ?thesis by (subst (1 2 3) run.simps) simp
  next
    case False
    from "1.prems" have "merge_inv (merge_step old st)" "content (merge_step old st) = content st"
      by (simp_all add: merge_step_inv)
    with "1.IH" [OF False] False show ?thesis
      by (subst (1 2 3) run.simps) simp
  qed
qed

lemma merge_init_inv:
  assumes "\<forall>ch\<in>set ins. records_ascending ch \<and> close_err ch = None"
  shows "merge_inv (merge_init ins)"
  using assms
  by (simp add: merge_inv_def merge_init_def primed_inv_def heap_inv_Nil inputs_ok_def
      sources_below_def heads_least_def active_in_heap_def)

lemma size_sum_list_mset:
  fixes f :: "'a \<Rightarrow> 'b multiset"
  shows "size (sum_list (map f xs)) = sum_list (map (\<lambda>x. size (f x)) xs)"
  by (induction xs) simp_all

lemma MergePacketChans_content:
  assumes "\<forall>ch\<in>set ins. records_ascending ch \<and> close_err ch = None"
  shows "mset (ms_out (MergePacketChans old ins)) =
         sum_list (map (\<lambda>ch. mset (map the (sends ch))) ins)"
proof -
  let ?st = "MergePacketChans old ins"
  from assms have "merge_inv (merge_init ins)" by (rule merge_init_inv)
  then have r: "merge_inv ?st" "content ?st = content (merge_init ins)" "ms_pc ?st = Returned"
    unfolding MergePacketChans_def using run_inv by blast+
  from r(1,3) have "waiting (ms_in ?st) (ms_h ?st) = {#}" by (simp add: merge_inv_def)
  then have "content ?st = mset (ms_out ?st)" by (simp add: content_def)
  with r(2) show ?thesis by (simp add: content_def merge_init_def waiting_def)
qed

text \<open>
  Claim C1. For any number of input channels (none included), each delivering records
  whose timestamps never decrease and each closed with a nil error, the merge goroutine
  closes \<open>out\<close> (\<open>Returned\<close>) with a nil error, and the stream it has sent on \<open>out\<close> is
  non-decreasing in timestamp and as long as all input streams together. This holds for
  every timing of the producers' \<open>Close\<close> calls and for both variants of \<open>heap.down\<close>.
\<close>

theorem MergePacketChans_sorted:
  assumes "\<forall>ch\<in>set ins. records_ascending ch \<and> close_err ch = None"
  shows "ms_pc (MergePacketChans old ins) = Returned \<and>
         ms_err (MergePacketChans old ins) = None \<and>
         sorted (map Timestamp (ms_out (MergePacketChans old ins))) \<and>
         length (ms_out (MergePacketChans old ins)) =
           sum_list (map (\<lambda>ch. length (sends ch)) ins)"
proof -
  let ?st = "MergePacketChans old ins"
  from assms have "merge_inv (merge_init ins)" by (rule merge_init_inv)
  then have r: "merge_inv ?st" "ms_pc ?st = Returned"
    unfolding MergePacketChans_def using run_inv by blast+
  then have s: "sorted (map Timestamp (ms_out ?st))" "ms_err ?st = None"
    by (simp_all add: merge_inv_def)
  have "size (mset (ms_out ?st)) = size (sum_list (map (\<lambda>ch. mset (map the (sends ch))) ins))"
    using MergePacketChans_content [OF assms, of old] by simp
  then have "length (ms_out ?st) = sum_list (map (\<lambda>ch. length (sends ch)) ins)"
    by (simp add: size_sum_list_mset)
  with r s show ?thesis by simp
qed


text \<open>
  Claim C1 on three inputs with the timestamps \<open>[1,3,5]\<close>, \<open>[2,4]\<close> and \<open>[0,6]\<close>: the
  output has the timestamps \<open>[0,1,2,3,4,5,6]\<close> and no error.
\<close>

theorem MergePacketChans_sorted_witness:
  "records_ascending (input_of [1, 3, 5] None 2) \<and> close_err (input_of [1, 3, 5] None 2) = None \<and>
   records_ascending (input_of [2, 4] None 0) \<and> close_err (input_of [2, 4] None 0) = None \<and>
   records_ascending (input_of [0, 6] None 9) \<and> close_err (input_of [0, 6] None 9) = None \<and>
   map Timestamp (ms_out (MergePacketChans False
      [input_of [1, 3, 5] None 2, input_of [2, 4] None 0, input_of [0, 6] None 9])) =
     [0, 1, 2, 3, 4, 5, 6] \<and>
   ms_pc (MergePacketChans False
      [input_of [1, 3, 5] None 2, input_of [2, 4] None 0, input_of [0, 6] None 9]) = Returned \<and>
   ms_err (MergePacketChans False
      [input_of [1, 3, 5] None 2, input_of [2, 4] None 0, input_of [0, 6] None 9]) = None \<and>
   sorted (map Timestamp (ms_out (MergePacketChans False
      [input_of [1, 3, 5] None 2, input_of [2, 4] None 0, input_of [0, 6] None 9]))) \<and>
   length (ms_out (MergePacketChans False
      [input_of [1, 3, 5] None 2, input_of [2, 4] None 0, input_of [0, 6] None 9])) = 7"
proof -
  have a: "records_ascending (input_of [1, 3, 5] None 2) \<and>
      close_err (input_of [1, 3, 5] None 2) = None"
    by (simp add: input_of_def records_ascending_def packet_at_def)
  have b: "records_ascending (input_of [2, 4] None 0) \<and> close_err (input_of [2, 4] None 0) = None"
    by (simp add: input_of_def records_ascending_def packet_at_def)
  have c: "records_ascending (input_of [0, 6] None 9) \<and> close_err (input_of [0, 6] None 9) = None"
    by (simp add: input_of_def records_ascending_def packet_at_def)
  from a b c have hyp:
    "\<forall>ch\<in>set [input_of [1, 3, 5] None 2, input_of [2, 4] None 0, input_of [0, 6] None 9].
       records_ascending ch \<and> close_err ch = None"
    by simp
  have ts: "map Timestamp (ms_out (MergePacketChans False
      [input_of [1, 3, 5] None 2, input_of [2, 4] None 0, input_of [0, 6] None 9])) =
     [0, 1, 2, 3, 4, 5, 6]"
    by code_simp
  have n: "sum_list (map (\<lambda>ch. length (sends ch))
      [input_of [1, 3, 5] None 2, input_of [2, 4] None 0, input_of [0, 6] None 9]) = 7"
    by (simp add: input_of_def)
  from MergePacketChans_sorted [OF hyp, of False] a b c ts n show ?thesis by simp
qed

subsection \<open>Errors of the inputs\<close>

text \<open>
  What the merge does with the errors of its inputs, whatever the inputs are: the error
  with which it closes \<open>out\<close> is the error of one of the inputs, as that input's
  producer passed it to \<open>Close\<close>; once \<open>out\<close> is closed the goroutine has returned
  and sends nothing more; and what has been sent on \<open>out\<close> stays sent, every later
  state extending it.
\<close>

lemma map_update_same:
  "f y = f (xs ! i) \<Longrightarrow> map f (xs[i := y]) = map f xs"
  by (induction xs arbitrary: i) (auto split: nat.splits)

lemma receive_close_errs:
  "map close_err (ms_in (snd (receive i st))) = map close_err (ms_in st)"
  by (cases "sends (ms_in st ! i)") (simp_all add: receive_def map_update_same)

lemma refill_close_errs: "map close_err (ms_in (refill i st)) = map close_err (ms_in st)"
  by (simp add: refill_def receive_close_errs)

lemma Err_at_cases: "Err_at ch t = None \<or> Err_at ch t = close_err ch"
  by (simp add: Err_at_def)

definition err_from_input :: "merge_state \<Rightarrow> bool" where
  "err_from_input st = (ms_err st = None \<or> ms_err st \<in> set (map close_err (ms_in st)))"

lemma close_on_err_from_input:
  assumes "err_from_input st" and "e = None \<or> e \<in> set (map close_err (ms_in st))"
  shows "err_from_input (close_on e pc st)"
  using assms by (cases e) (auto simp: err_from_input_def close_on_def)

lemma merge_step_err_from_input:
  assumes "err_from_input st"
  shows "err_from_input (merge_step old st) \<and>
         map close_err (ms_in (merge_step old st)) = map close_err (ms_in st)"
proof (cases "ms_pc st")
  case (Priming k)
  show ?thesis
  proof (cases "k < length (ms_in st)")
    case False
    with Priming assms show ?thesis by (simp add: merge_step_def err_from_input_def)
  next
    case True
    let ?e = "Err_at (ms_in st ! k) (ms_now st)"
    have ce: "map close_err (ms_in (refill k st)) = map close_err (ms_in st)"
      by (rule refill_close_errs)
    from assms ce have a: "err_from_input (refill k st)" by (simp add: err_from_input_def)
    from True have "close_err (ms_in st ! k) \<in> set (map close_err (ms_in st))" by simp
    with ce Err_at_cases [of "ms_in st ! k" "ms_now st"]
    have "?e = None \<or> ?e \<in> set (map close_err (ms_in (refill k st)))" by auto
    with a have "err_from_input (close_on ?e (Priming (k + 1)) (refill k st))"
      by (rule close_on_err_from_input)
    with True Priming ce show ?thesis by (simp add: merge_step_def prime_step_refill)
  qed
next
  case Looping
  show ?thesis
  proof (cases "packetHeap_Len (ms_h st) > 0")
    case False
    with Looping show ?thesis by (simp add: merge_step_def err_from_input_def)
  next
    case True
    then have ne: "ms_h st \<noteq> []" by (auto simp: packetHeap_Len_def)
    from heap_Pop_Some [OF ne, of old] obtain h' where
      pop: "heap_Pop old (ms_h st) = Some (h', ms_h st ! 0)" by blast
    let ?p = "ms_h st ! 0"
    show ?thesis
    proof (cases "ip_i ?p < length (ms_in st)")
      case False
      with True Looping pop assms show ?thesis
        by (simp add: merge_step_def loop_step_def err_from_input_def)
    next
      case p: True
      let ?st3 = "refill (ip_i ?p) (st\<lparr>ms_h := h', ms_count := ms_count st + 1\<rparr>)"
      let ?st4 = "?st3\<lparr>ms_out := ms_out st @ [ip_Packet ?p]\<rparr>"
      let ?e = "Err_at (ms_in ?st4 ! ip_i ?p) (ms_now ?st4)"
      have ce: "map close_err (ms_in ?st4) = map close_err (ms_in st)"
        by (simp add: refill_close_errs)
      from assms ce have a: "err_from_input ?st4" by (simp add: err_from_input_def)
      from p have "ip_i ?p < length (ms_in ?st4)" by simp
      then have "close_err (ms_in ?st4 ! ip_i ?p) \<in> set (map close_err (ms_in ?st4))"
        by (simp del: refill_fields)
      with Err_at_cases [of "ms_in ?st4 ! ip_i ?p" "ms_now ?st4"]
      have "?e = None \<or> ?e \<in> set (map close_err (ms_in ?st4))" by auto
      with a have "err_from_input (close_on ?e Looping ?st4)"
        by (rule close_on_err_from_input)
      with True Looping ce show ?thesis
        by (simp add: merge_step_def loop_step_refill [OF pop p] Let_def)
    qed
  qed
next
  case Returned
  with assms show ?thesis by (simp add: merge_step_def)
next
  case Panicked
  with assms show ?thesis by (simp add: merge_step_def)
qed

lemma run_err_from_input:
  "err_from_input st \<Longrightarrow>
   err_from_input (run old st) \<and> map close_err (ms_in (run old st)) = map close_err (ms_in st)"
proof (induction old st rule: run.induct)
  case (1 old st)
  show ?case
  proof (cases "ms_pc st = Returned \<or> ms_pc st = Panicked")
    case True
    with "1.prems" show ?thesis by (subst (1 2) run.simps) simp
  next
    case False
    with "1.IH" "1.prems" show ?thesis
      by (subst (1 2) run.simps) (simp add: merge_step_err_from_input)
  qed
qed

lemma reported_error_is_an_input_error:
  assumes "ms_err (MergePacketChans old ins) = Some e"
  shows "\<exists>ch\<in>set ins. close_err ch = Some e"
proof -
  have "err_from_input (merge_init ins)" by (simp add: err_from_input_def merge_init_def)
  then have "err_from_input (MergePacketChans old ins) \<and>
      map close_err (ms_in (MergePacketChans old ins)) = map close_err (ms_in (merge_init ins))"
    unfolding MergePacketChans_def by (rule run_err_from_input)
  then have "ms_err (MergePacketChans old ins) = None \<or>
      ms_err (MergePacketChans old ins) \<in> set (map close_err ins)"
    by (simp only: err_from_input_def merge_init_def merge_state.simps) metis
  with assms have "Some e \<in> set (map close_err ins)" by simp
  then show ?thesis by auto
qed

lemma returned_is_final: "ms_pc st = Returned \<Longrightarrow> merge_step old st = st"
  by (simp add: merge_step_def)

lemma merge_step_out_grows: "\<exists>ys. ms_out (merge_step old st) = ms_out st @ ys"
proof (cases "ms_pc st")
  case (Priming k)
  then show ?thesis by (simp add: merge_step_def prime_step_refill)
next
  case Looping
  show ?thesis
  proof (cases "heap_Pop old (ms_h st)")
    case None
    with Looping show ?thesis by (simp add: merge_step_def loop_step_def)
  next
    case (Some r)
    obtain h' p where r: "r = (h', p)" by (cases r)
    show ?thesis
    proof (cases "ip_i p < length (ms_in st)")
      case True
      with Looping Some r show ?thesis
        by (simp add: merge_step_def loop_step_refill Let_def)
    next
      case False
      with Looping Some r show ?thesis by (simp add: merge_step_def loop_step_def)
    qed
  qed
qed (simp_all add: merge_step_def)

lemma reached_out_grows:
  "\<exists>ys. ms_out ((merge_step old ^^ (n + m)) st) = ms_out ((merge_step old ^^ n) st) @ ys"
proof (induction m)
  case 0
  show ?case by simp
next
  case (Suc m)
  then obtain ys where ys:
    "ms_out ((merge_step old ^^ (n + m)) st) = ms_out ((merge_step old ^^ n) st) @ ys" ..
  from merge_step_out_grows [of old "(merge_step old ^^ (n + m)) st"] obtain zs where
    "ms_out ((merge_step old ^^ Suc (n + m)) st) = ms_out ((merge_step old ^^ (n + m)) st) @ zs"
    by auto
  with ys have "ms_out ((merge_step old ^^ (n + Suc m)) st) =
      ms_out ((merge_step old ^^ n) st) @ (ys @ zs)" by simp
  then show ?case ..
qed

text \<open>
  When is an input's error reported? Take inputs that deliver records only. The error
  of a channel that has delivered a record is read by the main loop, from the channel
  itself, after the receive that found the channel closed. The priming loop reads the
  error from its copy of the channel, taken before the receive; it sees the error only
  of a channel that was closed before the merge reached it (\<open>close_tick = 0\<close>). So an
  input is \<open>observable\<close> when it closes with \<open>nil\<close>, delivers at least one record, or is
  closed before the merge starts; and if every input is, an error of any of them closes
  \<open>out\<close> with an error.
\<close>

definition records_only :: "Input list \<Rightarrow> bool" where
  "records_only ins = (\<forall>ch\<in>set ins. None \<notin> set (sends ch))"

definition observable :: "Input \<Rightarrow> bool" where
  "observable ch = (close_err ch = None \<or> sends ch \<noteq> [] \<or> close_tick ch = 0)"

definition failing_in_heap :: "nat \<Rightarrow> Input list \<Rightarrow> packetHeap \<Rightarrow> bool" where
  "failing_in_heap k ins h = (\<forall>j<k. close_err (ins ! j) \<noteq> None \<longrightarrow> j \<in> ip_i ` set h)"

definition err_inv :: "nat \<Rightarrow> merge_state \<Rightarrow> bool" where
  "err_inv k st =
     (k \<le> length (ms_in st) \<and> records_only (ms_in st) \<and> sources_below k (ms_h st) \<and>
      failing_in_heap k (ms_in st) (ms_h st) \<and>
      (\<forall>j. k \<le> j \<and> j < length (ms_in st) \<longrightarrow> observable (ms_in st ! j)) \<and>
      (\<exists>j<length (ms_in st). close_err (ms_in st ! j) \<noteq> None))"

definition reports_error :: "merge_state \<Rightarrow> bool" where
  "reports_error st =
     (case ms_pc st of
        Priming k \<Rightarrow> err_inv k st
      | Looping \<Rightarrow> err_inv (length (ms_in st)) st
      | Returned \<Rightarrow> ms_err st \<noteq> None
      | Panicked \<Rightarrow> False)"

lemma refill_now_closed:
  "sends (ms_in st ! i) = [] \<Longrightarrow>
   ms_now (refill i st) = max (ms_now st + 1) (close_tick (ms_in st ! i))"
  by (simp add: refill_def receive_def push_received_def)

lemma close_err_nth:
  assumes "map close_err ins' = map close_err ins" and "j < length ins"
  shows "close_err (ins' ! j) = close_err (ins ! j)"
proof -
  have "length (map close_err ins') = length (map close_err ins)" by (simp only: assms(1))
  then have len: "length ins' = length ins" by simp
  with assms(2) have "close_err (ins' ! j) = map close_err ins' ! j" by simp
  also have "\<dots> = map close_err ins ! j" by (simp only: assms(1))
  also have "\<dots> = close_err (ins ! j)" using assms(2) by simp
  finally show ?thesis .
qed

lemma refill_close_err_nth:
  "j < length (ms_in st) \<Longrightarrow> close_err (ms_in (refill i st) ! j) = close_err (ms_in st ! j)"
  by (rule close_err_nth) (rule refill_close_errs)

lemma refill_other:
  "j \<noteq> i \<Longrightarrow> ms_in (refill i st) ! j = ms_in st ! j"
  by (simp add: refill_def receive_def split: list.splits)

lemma records_only_update:
  assumes "records_only ins" and "None \<notin> set (sends c')"
  shows "records_only (ins[i := c'])"
  unfolding records_only_def
proof
  fix ch assume "ch \<in> set (ins[i := c'])"
  then have "ch = c' \<or> ch \<in> set ins" using set_update_subset_insert [of ins i c'] by auto
  with assms show "None \<notin> set (sends ch)" by (auto simp: records_only_def)
qed

lemma refill_records_cases:
  assumes "records_only (ms_in st)" and "i < length (ms_in st)"
  obtains
    (closed) "sends (ms_in st ! i) = []" "ms_in (refill i st) = ms_in st"
      "ms_h (refill i st) = ms_h st"
      "Err_at (ms_in (refill i st) ! i) (ms_now (refill i st)) = close_err (ms_in st ! i)"
  | (got) q rest where "sends (ms_in st ! i) = Some q # rest"
      "ms_in (refill i st) = (ms_in st)[i := (ms_in st ! i)\<lparr>sends := rest\<rparr>]"
      "ms_h (refill i st) = heap_Push (ms_h st) \<lparr>ip_Packet = q, ip_i = i\<rparr>"
      "records_only (ms_in (refill i st))"
proof (cases "sends (ms_in st ! i)")
  case Nil
  then have "Err_at (ms_in (refill i st) ! i) (ms_now (refill i st)) = close_err (ms_in st ! i)"
    by (simp add: refill_closed refill_now_closed Err_at_def)
  with Nil show ?thesis using closed by (simp add: refill_closed)
next
  case (Cons pkt rest)
  from assms have nn: "None \<notin> set (sends (ms_in st ! i))" by (simp add: records_only_def)
  with Cons have "None \<noteq> pkt" "None \<notin> set rest" by simp_all
  then obtain q where q: "pkt = Some q" by (cases pkt) simp_all
  have "records_only ((ms_in st)[i := (ms_in st ! i)\<lparr>sends := rest\<rparr>])"
    using assms(1) \<open>None \<notin> set rest\<close> by (intro records_only_update) simp_all
  with Cons q show ?thesis using got [of q rest] by (simp add: refill_got)
qed

lemma refill_failing_in_heap:
  assumes ro: "records_only (ms_in st)" and i: "i < length (ms_in st)"
    and k: "k \<le> length (ms_in st)"
    and f: "\<forall>j<k. j \<noteq> i \<longrightarrow> close_err (ms_in st ! j) \<noteq> None \<longrightarrow> j \<in> ip_i ` set (ms_h st)"
    and e: "sends (ms_in st ! i) = [] \<longrightarrow> close_err (ms_in st ! i) = None"
  shows "failing_in_heap k (ms_in (refill i st)) (ms_h (refill i st)) \<and>
         records_only (ms_in (refill i st))"
  using ro i
proof (cases rule: refill_records_cases)
  case closed
  with e have none: "close_err (ms_in st ! i) = None" by simp
  have "j \<in> ip_i ` set (ms_h st)" if "j < k" "close_err (ms_in st ! j) \<noteq> None" for j
  proof -
    from that none have "j \<noteq> i" by auto
    with that f show ?thesis by blast
  qed
  with closed ro show ?thesis by (simp add: failing_in_heap_def)
next
  case (got q rest)
  let ?new = "\<lparr>ip_Packet = q, ip_i = i\<rparr>"
  have "j \<in> ip_i ` insert ?new (set (ms_h st))"
    if "j < k" "close_err (ms_in (refill i st) ! j) \<noteq> None" for j
  proof (cases "j = i")
    case True
    then show ?thesis by simp
  next
    case False
    from that k have "close_err (ms_in st ! j) \<noteq> None" by (simp add: refill_close_err_nth)
    with that False f show ?thesis by blast
  qed
  with got(3,4) show ?thesis by (simp add: failing_in_heap_def heap_Push_set)
qed

lemma err_inv_pc [simp]: "err_inv k (st\<lparr>ms_pc := pc\<rparr>) = err_inv k st"
  by (simp add: err_inv_def)

lemma err_inv_out [simp]: "err_inv k (st\<lparr>ms_out := out\<rparr>) = err_inv k st"
  by (simp add: err_inv_def)

lemma close_on_reports_error:
  assumes "e = None \<Longrightarrow> err_inv k st" and "pc = Priming k \<or> pc = Looping \<and> k = length (ms_in st)"
  shows "reports_error (close_on e pc st)"
proof (cases e)
  case None
  with assms show ?thesis by (auto simp: close_on_def reports_error_def)
next
  case (Some x)
  then show ?thesis by (simp add: close_on_def reports_error_def)
qed

lemma prime_step_reports_error:
  assumes inv: "err_inv k st" and k: "k < length (ms_in st)"
  shows "reports_error (prime_step k st)"
proof -
  let ?e = "Err_at (ms_in st ! k) (ms_now st)"
  have "err_inv (k + 1) (refill k st)" if none: "?e = None"
  proof -
    from inv have ro: "records_only (ms_in st)" and sb: "sources_below k (ms_h st)"
      and f: "failing_in_heap k (ms_in st) (ms_h st)"
      and ob: "\<forall>j. k \<le> j \<and> j < length (ms_in st) \<longrightarrow> observable (ms_in st ! j)"
      and ex: "\<exists>j<length (ms_in st). close_err (ms_in st ! j) \<noteq> None"
      by (simp_all add: err_inv_def)
    from sb have fresh: "k \<notin> ip_i ` set (ms_h st)" by (auto simp: sources_below_def)
    have 1: "sources_below (k + 1) (ms_h (refill k st))"
      using sb fresh by (rule refill_sources_below) simp_all
    from ob k have "observable (ms_in st ! k)" by simp
    with none have e: "sends (ms_in st ! k) = [] \<longrightarrow> close_err (ms_in st ! k) = None"
      by (auto simp: observable_def Err_at_def)
    have f': "\<forall>j<k + 1. j \<noteq> k \<longrightarrow> close_err (ms_in st ! j) \<noteq> None \<longrightarrow>
        j \<in> ip_i ` set (ms_h st)"
      using f by (auto simp: failing_in_heap_def)
    from k have k1: "k + 1 \<le> length (ms_in st)" by simp
    from refill_failing_in_heap [OF ro k k1 f' e]
    have 2: "failing_in_heap (k + 1) (ms_in (refill k st)) (ms_h (refill k st))"
      and 3: "records_only (ms_in (refill k st))" by simp_all
    have 4: "observable (ms_in (refill k st) ! j)" if "k + 1 \<le> j \<and> j < length (ms_in st)" for j
      using that ob by (simp add: refill_other)
    from ex have 5: "\<exists>j<length (ms_in st). close_err (ms_in (refill k st) ! j) \<noteq> None"
      by (auto simp: refill_close_err_nth)
    from 1 2 3 4 5 k1 show ?thesis by (simp add: err_inv_def)
  qed
  then show ?thesis
    unfolding prime_step_refill by (intro close_on_reports_error) simp_all
qed

lemma loop_step_reports_error:
  assumes inv: "err_inv (length (ms_in st)) st" and ne: "ms_h st \<noteq> []"
  shows "reports_error (loop_step old st)"
proof -
  let ?N = "length (ms_in st)"
  let ?p = "ms_h st ! 0"
  let ?i = "ip_i ?p"
  from inv have ro: "records_only (ms_in st)" and sb: "sources_below ?N (ms_h st)"
    and f: "failing_in_heap ?N (ms_in st) (ms_h st)"
    and ex: "\<exists>j<?N. close_err (ms_in st ! j) \<noteq> None"
    by (simp_all add: err_inv_def)
  from heap_Pop_Some [OF ne, of old] obtain h' where
    pop: "heap_Pop old (ms_h st) = Some (h', ?p)" and
    m: "mset (ms_h st) = add_mset ?p (mset h')" by blast
  from popped_sources_below [OF pop sb]
  have sb': "sources_below ?N h'" and p: "?i < ?N" and fresh: "?i \<notin> ip_i ` set h'"
    by simp_all
  from m sb have set_h: "set (ms_h st) = insert ?p (set h')"
    using popped_sources [of "ms_h st" ?p h'] by (simp add: sources_below_def)
  let ?st1 = "st\<lparr>ms_h := h', ms_count := ms_count st + 1\<rparr>"
  let ?st3 = "refill ?i ?st1"
  let ?st4 = "?st3\<lparr>ms_out := ms_out st @ [ip_Packet ?p]\<rparr>"
  let ?e = "Err_at (ms_in ?st4 ! ?i) (ms_now ?st4)"
  have "err_inv ?N ?st4" if none: "?e = None"
  proof -
    have 1: "sources_below ?N (ms_h ?st3)"
      using sb' fresh p by (intro refill_sources_below [where k = ?N]) simp_all
    have ro1: "records_only (ms_in ?st1)" and p1: "?i < length (ms_in ?st1)"
      using ro p by simp_all
    have e: "sends (ms_in ?st1 ! ?i) = [] \<longrightarrow> close_err (ms_in ?st1 ! ?i) = None"
    proof
      assume empty: "sends (ms_in ?st1 ! ?i) = []"
      from ro1 p1 show "close_err (ms_in ?st1 ! ?i) = None"
      proof (cases rule: refill_records_cases)
        case closed
        with none show ?thesis by simp
      next
        case (got q rest)
        with empty show ?thesis by simp
      qed
    qed
    have f': "\<forall>j<?N. j \<noteq> ?i \<longrightarrow> close_err (ms_in ?st1 ! j) \<noteq> None \<longrightarrow>
        j \<in> ip_i ` set (ms_h ?st1)"
      using f set_h by (auto simp: failing_in_heap_def)
    have N1: "?N \<le> length (ms_in ?st1)" by simp
    from refill_failing_in_heap [OF ro1 p1 N1 f' e]
    have 2: "failing_in_heap ?N (ms_in ?st3) (ms_h ?st3)"
      and 3: "records_only (ms_in ?st3)" by simp_all
    from ex have 5: "\<exists>j<?N. close_err (ms_in ?st3 ! j) \<noteq> None"
      by (auto simp: refill_close_err_nth)
    from 1 2 3 5 show ?thesis by (auto simp: err_inv_def)
  qed
  then have "reports_error (close_on ?e Looping ?st4)"
    by (intro close_on_reports_error [where k = ?N]) simp_all
  then show ?thesis by (simp add: loop_step_refill [OF pop p] Let_def)
qed

lemma merge_step_reports_error:
  assumes "reports_error st"
  shows "reports_error (merge_step old st)"
proof (cases "ms_pc st")
  case (Priming k)
  with assms have inv: "err_inv k st" by (simp add: reports_error_def)
  show ?thesis
  proof (cases "k < length (ms_in st)")
    case True
    with inv Priming show ?thesis by (simp add: merge_step_def prime_step_reports_error)
  next
    case False
    with inv have "k = length (ms_in st)" by (simp add: err_inv_def)
    with inv False Priming show ?thesis by (simp add: merge_step_def reports_error_def)
  qed
next
  case Looping
  with assms have inv: "err_inv (length (ms_in st)) st" by (simp add: reports_error_def)
  have ne: "ms_h st \<noteq> []"
  proof
    assume "ms_h st = []"
    with inv show False by (auto simp: err_inv_def failing_in_heap_def)
  qed
  then have "packetHeap_Len (ms_h st) > 0" by (simp add: packetHeap_Len_def)
  with inv ne Looping show ?thesis by (simp add: merge_step_def loop_step_reports_error)
next
  case Returned
  with assms show ?thesis by (simp add: merge_step_def)
next
  case Panicked
  with assms show ?thesis by (simp add: reports_error_def)
qed

lemma run_reports_error:
  "reports_error st \<Longrightarrow> reports_error (run old st) \<and> ms_pc (run old st) = Returned"
proof (induction old st rule: run.induct)
  case (1 old st)
  show ?case
  proof (cases "ms_pc st = Returned \<or> ms_pc st = Panicked")
    case True
    with "1.prems" have "ms_pc st = Returned" by (auto simp: reports_error_def)
    with "1.prems" show ?thesis by (subst (1 2) run.simps) simp
  next
    case False
    with "1.IH" "1.prems" show ?thesis
      by (subst (1 2) run.simps) (simp add: merge_step_reports_error)
  qed
qed

lemma observable_error_is_reported:
  assumes "records_only ins" and "\<forall>ch\<in>set ins. observable ch"
    and "\<exists>ch\<in>set ins. close_err ch \<noteq> None"
  shows "ms_pc (MergePacketChans old ins) = Returned \<and>
         (\<exists>ch\<in>set ins. close_err ch \<noteq> None \<and>
            ms_err (MergePacketChans old ins) = close_err ch)"
proof -
  from assms(3) obtain j where "j < length ins" "close_err (ins ! j) \<noteq> None"
    by (auto simp: in_set_conv_nth)
  with assms(1,2) have "reports_error (merge_init ins)"
    by (auto simp: reports_error_def merge_init_def err_inv_def sources_below_def
        failing_in_heap_def)
  then have r: "reports_error (MergePacketChans old ins)" "ms_pc (MergePacketChans old ins) = Returned"
    unfolding MergePacketChans_def using run_reports_error by blast+
  then obtain e where e: "ms_err (MergePacketChans old ins) = Some e"
    by (auto simp: reports_error_def)
  from reported_error_is_an_input_error [OF e] obtain ch where
    "ch \<in> set ins" "close_err ch = Some e" by blast
  with e r(2) show ?thesis by auto
qed

text \<open>
  Claim C2 says that an input channel closed with a non-nil error \<open>E\<close> makes the merge
  close \<open>out\<close> with \<open>E\<close>. The code at the one input that is not \<open>observable\<close>: a
  channel that delivers no packet and whose producer calls \<open>Close(E)\<close> at tick 1, that
  is after the priming iteration has copied \<open>in[0]\<close> into \<open>c\<close>, while it waits in
  \<open><-c.Receive()\<close>. The receive returns \<open>nil\<close>, \<open>c.Err()\<close> reads the copy made before
  the \<open>Close\<close> and returns \<open>nil\<close>, nothing is pushed, the main loop is skipped, and
  \<open>out\<close> is closed with a nil error and no packet, although \<open>in[0].Err()\<close> returns \<open>E\<close>
  by then.
\<close>

theorem MergePacketChans_error_lost:
  "ms_pc (MergePacketChans old [input_of [] (Some ''E'') 1]) = Returned \<and>
   ms_err (MergePacketChans old [input_of [] (Some ''E'') 1]) = None \<and>
   ms_out (MergePacketChans old [input_of [] (Some ''E'') 1]) = [] \<and>
   Err_at (input_of [] (Some ''E'') 1)
     (ms_now (MergePacketChans old [input_of [] (Some ''E'') 1])) = Some ''E''"
proof (cases old)
  case True
  have "ms_pc (MergePacketChans True [input_of [] (Some ''E'') 1]) = Returned \<and>
   ms_err (MergePacketChans True [input_of [] (Some ''E'') 1]) = None \<and>
   ms_out (MergePacketChans True [input_of [] (Some ''E'') 1]) = [] \<and>
   Err_at (input_of [] (Some ''E'') 1)
     (ms_now (MergePacketChans True [input_of [] (Some ''E'') 1])) = Some ''E''"
    by code_simp
  with True show ?thesis by simp
next
  case False
  have "ms_pc (MergePacketChans False [input_of [] (Some ''E'') 1]) = Returned \<and>
   ms_err (MergePacketChans False [input_of [] (Some ''E'') 1]) = None \<and>
   ms_out (MergePacketChans False [input_of [] (Some ''E'') 1]) = [] \<and>
   Err_at (input_of [] (Some ''E'') 1)
     (ms_now (MergePacketChans False [input_of [] (Some ''E'') 1])) = Some ''E''"
    by code_simp
  with False show ?thesis by simp
qed

end
